theory Spec2Isabelle
  imports Main
begin

section \<open>The thinking-block validator hook\<close>

text \<open>
  The development embeds the thinking-block validator of the repository: the capability
  oracle \<open>isExtendedThinkingModel\<close>, the per-message checks \<open>hasContentParts\<close> and
  \<open>startsWithThinkingBlock\<close>, the backward search \<open>findPreviousThinkingContent\<close>, the
  repair \<open>prependThinkingBlock\<close> and the whole-conversation transform returned by
  \<open>createThinkingBlockValidatorHook\<close>.

  A JavaScript string is the list of its UTF-16 code units, each an integer;
  \<open>units\<close> gives the code units of an ASCII literal. A field that may be absent at run time
  (\<open>undefined\<close> or \<open>null\<close>) is an \<open>option\<close>. A read of a property of \<open>undefined\<close> raises
  \<open>TypeError\<close>, which the model returns as a value.
\<close>

type_synonym jsstring = "int list"

definition units :: "string \<Rightarrow> jsstring" where
  "units s = map of_char s"

subsection \<open>Data model\<close>

datatype error = TypeError

record message_part =
  part_type :: jsstring
  part_id :: "jsstring option"
  part_sessionID :: "jsstring option"
  part_messageID :: "jsstring option"
  part_text :: "jsstring option"
  part_thinking :: "jsstring option"
  part_synthetic :: "bool option"

record message_info =
  info_id :: "jsstring option"
  info_role :: jsstring
  info_sessionID :: "jsstring option"
  info_modelID :: "jsstring option"

record message =
  info :: "message_info option"
  parts :: "message_part list option"

text \<open>
  What the validator takes from outside its own file, so that every function has it as a
  parameter: the constants it imports from \<open>constants.js\<close>, whose values are not part of
  the file, and the part of the platform's Unicode tables that \<open>toLowerCase\<close> consults for
  code units outside ASCII. \<open>unicodeLower k s i\<close> is what the code unit at index \<open>i\<close> of \<open>s\<close>
  contributes to the lower-case form of \<open>s\<close>; it is given the whole string because the
  mapping of a surrogate or of a capital sigma depends on its neighbours.
\<close>

record environment =
  CONTENT_PART_TYPES :: "jsstring list"
  THINKING_PART_TYPES :: "jsstring list"
  DEFAULT_THINKING_CONTENT :: jsstring
  SYNTHETIC_THINKING_ID_PREFIX :: jsstring
  unicodeLower :: "jsstring \<Rightarrow> nat \<Rightarrow> jsstring"

subsection \<open>String primitives\<close>

text \<open>
  \<open>String.prototype.toLowerCase\<close>: the code units \<open>A\<close> to \<open>Z\<close> become \<open>a\<close> to \<open>z\<close> and the
  other ASCII code units stay; the Kelvin sign U+212A becomes \<open>k\<close>; the capital dotted I
  U+0130 becomes \<open>i\<close> followed by the combining dot U+0307; every other code unit is left
  to \<open>unicodeLower\<close>.
\<close>

definition lowerUnit :: "environment \<Rightarrow> jsstring \<Rightarrow> nat \<Rightarrow> jsstring" where
  "lowerUnit k s i =
     (let u = s ! i in
        if 65 \<le> u \<and> u \<le> 90 then [u + 32]
        else if u < 128 then [u]
        else if u = 0x212A then [0x6B]
        else if u = 0x130 then [0x69, 0x307]
        else unicodeLower k s i)"

definition toLowerCase :: "environment \<Rightarrow> jsstring \<Rightarrow> jsstring" where
  "toLowerCase k s = concat (map (lowerUnit k s) [0..<length s])"

text \<open>
  \<open>String.prototype.includes\<close> (here \<open>str_includes\<close>) and \<open>endsWith\<close>; \<open>startsWith\<close> is the
  prefix test the two are built on.
\<close>

fun startsWith :: "jsstring \<Rightarrow> jsstring \<Rightarrow> bool" where
  "startsWith s [] = True"
| "startsWith [] (p # ps) = False"
| "startsWith (c # cs) (p # ps) = (c = p \<and> startsWith cs ps)"

fun str_includes :: "jsstring \<Rightarrow> jsstring \<Rightarrow> bool" where
  "str_includes [] pat = startsWith [] pat"
| "str_includes (c # cs) pat = (startsWith (c # cs) pat \<or> str_includes cs pat)"

definition endsWith :: "jsstring \<Rightarrow> jsstring \<Rightarrow> bool" where
  "endsWith s pat = startsWith (rev s) (rev pat)"

text \<open>
  \<open>String.prototype.trim\<close> removes white space and line terminators from both ends:
  TAB, LF, VT, FF, CR, SP, U+00A0, U+1680, U+2000 to U+200A, U+2028, U+2029, U+202F,
  U+205F, U+3000 and U+FEFF.
\<close>

definition isWhiteSpace :: "int \<Rightarrow> bool" where
  "isWhiteSpace u =
     (u \<in> {0x9, 0xA, 0xB, 0xC, 0xD, 0x20, 0xA0, 0x1680, 0x2028, 0x2029, 0x202F, 0x205F,
            0x3000, 0xFEFF} \<or>
      (0x2000 \<le> u \<and> u \<le> 0x200A))"

definition trim :: "jsstring \<Rightarrow> jsstring" where
  "trim s = rev (dropWhile isWhiteSpace (rev (dropWhile isWhiteSpace s)))"

subsection \<open>Capability oracle\<close>

definition isExtendedThinkingModel :: "environment \<Rightarrow> jsstring \<Rightarrow> bool" where
  "isExtendedThinkingModel k modelID =
     (if modelID = [] then False
      else let lower = toLowerCase k modelID in
        if str_includes lower (units ''thinking'') \<or> endsWith lower (units ''-high'') then True
        else (str_includes lower (units ''claude-sonnet-4'') \<or>
              str_includes lower (units ''claude-opus-4'') \<or>
              str_includes lower (units ''claude-3'')))"

subsection \<open>Per-message checks\<close>

definition hasContentParts :: "environment \<Rightarrow> message_part list option \<Rightarrow> bool" where
  "hasContentParts k ps =
     (case ps of
        None \<Rightarrow> False
      | Some xs \<Rightarrow>
          if length xs = 0 then False
          else list_ex (\<lambda>part. part_type part \<in> set (CONTENT_PART_TYPES k)) xs)"

definition startsWithThinkingBlock :: "environment \<Rightarrow> message_part list option \<Rightarrow> bool" where
  "startsWithThinkingBlock k ps =
     (case ps of
        None \<Rightarrow> False
      | Some [] \<Rightarrow> False
      | Some (firstPart # rest) \<Rightarrow> part_type firstPart \<in> set (THINKING_PART_TYPES k))"

subsection \<open>Backward search\<close>

text \<open>\<open>part.thinking || part.text\<close>: the \<open>thinking\<close> field unless it is absent or empty.\<close>

definition thinkingOf :: "message_part \<Rightarrow> jsstring option" where
  "thinkingOf part =
     (case part_thinking part of
        Some s \<Rightarrow> if s \<noteq> [] then Some s else part_text part
      | None \<Rightarrow> part_text part)"

text \<open>The inner \<open>for (const part of msg.parts)\<close> loop; \<open>Some\<close> is its \<open>return thinking\<close>.\<close>

fun scanParts :: "environment \<Rightarrow> message_part list \<Rightarrow> jsstring option" where
  "scanParts k [] = None"
| "scanParts k (part # rest) =
     (if part_type part \<in> set (THINKING_PART_TYPES k) then
        (case thinkingOf part of
           Some thinking \<Rightarrow>
             if thinking \<noteq> [] \<and> 0 < length (trim thinking) then Some thinking
             else scanParts k rest
         | None \<Rightarrow> scanParts k rest)
      else scanParts k rest)"

text \<open>
  The outer loop \<open>for (let i = currentIndex - 1; i >= 0; i--)\<close>: the argument \<open>Suc i\<close>
  stands for the loop at index \<open>i\<close>, and \<open>0\<close> for the loop's exit. Reading \<open>msg.info\<close> of
  an index outside the array, or \<open>info.role\<close> of a message without \<open>info\<close>, raises.
\<close>

fun findPrevious_loop :: "environment \<Rightarrow> message list \<Rightarrow> nat \<Rightarrow> error + jsstring" where
  "findPrevious_loop k messages 0 = Inr []"
| "findPrevious_loop k messages (Suc i) =
     (if length messages \<le> i then Inl TypeError
      else let msg = messages ! i in
        case info msg of
          None \<Rightarrow> Inl TypeError
        | Some minfo \<Rightarrow>
            if info_role minfo \<noteq> units ''assistant'' then findPrevious_loop k messages i
            else
              (case parts msg of
                 None \<Rightarrow> findPrevious_loop k messages i
               | Some ps \<Rightarrow>
                   (case scanParts k ps of
                      Some thinking \<Rightarrow> Inr thinking
                    | None \<Rightarrow> findPrevious_loop k messages i)))"

definition findPreviousThinkingContent ::
  "environment \<Rightarrow> message list \<Rightarrow> nat \<Rightarrow> error + jsstring" where
  "findPreviousThinkingContent k messages currentIndex =
     findPrevious_loop k messages currentIndex"

subsection \<open>Repair\<close>

text \<open>The object literal bound to \<open>thinkingPart\<close>, for a message whose \<open>info\<close> is \<open>minfo\<close>.\<close>

definition thinkingPart :: "environment \<Rightarrow> message_info \<Rightarrow> jsstring \<Rightarrow> message_part" where
  "thinkingPart k minfo thinkingContent =
     \<lparr> part_type = units ''thinking'',
       part_id = Some (SYNTHETIC_THINKING_ID_PREFIX k),
       part_sessionID =
         Some (case info_sessionID minfo of
                 Some s \<Rightarrow> if s \<noteq> [] then s else []
               | None \<Rightarrow> []),
       part_messageID = info_id minfo,
       part_text = None,
       part_thinking = Some thinkingContent,
       part_synthetic = Some True \<rparr>"

text \<open>
  \<open>prependThinkingBlock\<close> mutates the message; the model returns the message as the call
  leaves it, with the error the call raised, if any. The assignment \<open>message.parts = []\<close>
  comes before the read of \<open>message.info.sessionID\<close>.
\<close>

definition prependThinkingBlock ::
  "environment \<Rightarrow> message \<Rightarrow> jsstring \<Rightarrow> message \<times> error option" where
  "prependThinkingBlock k message thinkingContent =
     (let message1 = (case parts message of
                        None \<Rightarrow> message\<lparr>parts := Some []\<rparr>
                      | Some ps \<Rightarrow> message)
      in case info message1 of
           None \<Rightarrow> (message1, Some TypeError)
         | Some minfo \<Rightarrow>
             (message1\<lparr>parts :=
                 Some (thinkingPart k minfo thinkingContent #
                       (case parts message1 of None \<Rightarrow> [] | Some ps \<Rightarrow> ps))\<rparr>,
              None))"

subsection \<open>Whole-conversation transform\<close>

text \<open>
  The search for the last user message, \<open>for (let i = messages.length - 1; i >= 0; i--)\<close>,
  with the same reading of the loop index as in \<open>findPrevious_loop\<close>.
\<close>

fun lastUserMessage_loop :: "message list \<Rightarrow> nat \<Rightarrow> error + message option" where
  "lastUserMessage_loop messages 0 = Inr None"
| "lastUserMessage_loop messages (Suc i) =
     (if length messages \<le> i then Inl TypeError
      else case info (messages ! i) of
             None \<Rightarrow> Inl TypeError
           | Some minfo \<Rightarrow>
               if info_role minfo = units ''user'' then Inr (Some (messages ! i))
               else lastUserMessage_loop messages i)"

text \<open>The binding \<open>modelID = lastUserMessage?.info?.modelID || ""\<close>.\<close>

definition modelIDOf :: "message option \<Rightarrow> jsstring" where
  "modelIDOf lastUserMessage =
     (case lastUserMessage of
        None \<Rightarrow> []
      | Some m \<Rightarrow>
          (case info m of
             None \<Rightarrow> []
           | Some minfo \<Rightarrow> (case info_modelID minfo of None \<Rightarrow> [] | Some s \<Rightarrow> s)))"

text \<open>
  The repair loop \<open>for (let i = 0; i < messages.length; i++)\<close>. The array is mutated in
  place, so the state is the array itself: the result is the array as the loop leaves it
  and the error it raised, if any. The counter \<open>fixedCount\<close> only feeds a debug log and
  is left out.
\<close>

function process_loop ::
  "environment \<Rightarrow> message list \<Rightarrow> nat \<Rightarrow> message list \<times> error option" where
  "process_loop k messages i =
     (if i < length messages then
        (let msg = messages ! i in
           case info msg of
             None \<Rightarrow> (messages, Some TypeError)
           | Some minfo \<Rightarrow>
               if info_role minfo \<noteq> units ''assistant'' then process_loop k messages (Suc i)
               else if hasContentParts k (parts msg) \<and> \<not> startsWithThinkingBlock k (parts msg)
               then
                 (case findPreviousThinkingContent k messages i of
                    Inl e \<Rightarrow> (messages, Some e)
                  | Inr previousThinking \<Rightarrow>
                      (let thinkingContent =
                             (if previousThinking \<noteq> [] then previousThinking
                              else DEFAULT_THINKING_CONTENT k)
                       in case prependThinkingBlock k msg thinkingContent of
                            (msg', Some e) \<Rightarrow> (messages[i := msg'], Some e)
                          | (msg', None) \<Rightarrow> process_loop k (messages[i := msg']) (Suc i)))
               else process_loop k messages (Suc i))
      else (messages, None))"
  by pat_completeness auto
termination
  by (relation "measure (\<lambda>(k, messages, i). length messages - i)") auto

declare process_loop.simps [simp del]

text \<open>
  The function registered under \<open>experimental.chat.messages.transform\<close>, on
  \<open>output.messages\<close>. The specification calls it \<open>enforce\<close>.
\<close>

definition messagesTransform :: "environment \<Rightarrow> message list \<Rightarrow> message list \<times> error option" where
  "messagesTransform k messages =
     (if length messages = 0 then (messages, None)
      else case lastUserMessage_loop messages (length messages) of
             Inl e \<Rightarrow> (messages, Some e)
           | Inr lastUserMessage \<Rightarrow>
               (let modelID = modelIDOf lastUserMessage in
                  if \<not> isExtendedThinkingModel k modelID then (messages, None)
                  else process_loop k messages 0))"

subsection \<open>Notions used in the statements\<close>

text \<open>A conversation of the data model: every message carries its \<open>info\<close>.\<close>

definition hasInfo :: "message \<Rightarrow> bool" where
  "hasInfo m = (case info m of None \<Rightarrow> False | Some minfo \<Rightarrow> True)"

definition wellFormed :: "message list \<Rightarrow> bool" where
  "wellFormed C = list_all hasInfo C"

definition hasRole :: "jsstring \<Rightarrow> message \<Rightarrow> bool" where
  "hasRole r m = (case info m of None \<Rightarrow> False | Some minfo \<Rightarrow> info_role minfo = r)"

definition partsOf :: "message \<Rightarrow> message_part list" where
  "partsOf m = (case parts m of None \<Rightarrow> [] | Some ps \<Rightarrow> ps)"

text \<open>The most recent user message, and the model identifier the conversation is under.\<close>

definition latestUserMessage :: "message list \<Rightarrow> message option" where
  "latestUserMessage C = find (hasRole (units ''user'')) (rev C)"

definition activeModel :: "message list \<Rightarrow> jsstring" where
  "activeModel C = modelIDOf (latestUserMessage C)"


text \<open>
  A thinking-like part, and one whose thinking text is not blank: it has a character that
  is not white space.
\<close>

definition thinkingLike :: "environment \<Rightarrow> message_part \<Rightarrow> bool" where
  "thinkingLike k p = (part_type p \<in> set (THINKING_PART_TYPES k))"

definition nonBlankThinking :: "environment \<Rightarrow> message_part \<Rightarrow> bool" where
  "nonBlankThinking k p =
     (thinkingLike k p \<and>
      (case thinkingOf p of None \<Rightarrow> False | Some t \<Rightarrow> list_ex (\<lambda>c. \<not> isWhiteSpace c) t))"

text \<open>
  An assistant message with a thinking-like part that is not blank, and the thinking text
  of its first such part.
\<close>

definition reusable :: "environment \<Rightarrow> message \<Rightarrow> bool" where
  "reusable k m = (hasRole (units ''assistant'') m \<and> list_ex (nonBlankThinking k) (partsOf m))"

definition thinkingTextOf :: "environment \<Rightarrow> message \<Rightarrow> jsstring" where
  "thinkingTextOf k m =
     (case find (nonBlankThinking k) (partsOf m) of
        None \<Rightarrow> []
      | Some p \<Rightarrow> (case thinkingOf p of None \<Rightarrow> [] | Some t \<Rightarrow> t))"

text \<open>
  The content the specification prescribes for a repair at index \<open>i\<close> of \<open>C\<close>: the thinking
  text of the most recent reusable message before \<open>i\<close>, or the default placeholder.
\<close>

definition reuseContent :: "environment \<Rightarrow> message list \<Rightarrow> nat \<Rightarrow> jsstring" where
  "reuseContent k C i =
     (case find (reusable k) (rev (take i C)) of
        None \<Rightarrow> DEFAULT_THINKING_CONTENT k
      | Some m \<Rightarrow> thinkingTextOf k m)"

text \<open>
  A message with the synthetic thinking part for content \<open>c\<close> in front of its parts: what
  a repair of \<open>m\<close> is to leave.
\<close>

definition repaired :: "environment \<Rightarrow> message \<Rightarrow> message_info \<Rightarrow> jsstring \<Rightarrow> message" where
  "repaired k m minfo c = m\<lparr>parts := Some (thinkingPart k minfo c # partsOf m)\<rparr>"

text \<open>The value of \<open>previousThinking || DEFAULT_THINKING_CONTENT\<close>.\<close>

definition contentOr :: "environment \<Rightarrow> jsstring \<Rightarrow> jsstring" where
  "contentOr k prev = (if prev \<noteq> [] then prev else DEFAULT_THINKING_CONTENT k)"

text \<open>A violation in the sense of the specification.\<close>

definition inViolation :: "environment \<Rightarrow> message \<Rightarrow> bool" where
  "inViolation k m =
     (hasRole (units ''assistant'') m \<and> hasContentParts k (parts m) \<and>
      \<not> startsWithThinkingBlock k (parts m))"

subsection \<open>Reading an identifier without regard to case\<close>

text \<open>
  The two alphabets, letter by letter. The case variants of a code unit \<open>c\<close> of a pattern
  are \<open>c\<close> itself, the capital that stands above \<open>c\<close> when \<open>c\<close> is a small letter, and the
  Kelvin sign when \<open>c\<close> is \<open>k\<close>. A string matches a pattern without regard to case when it
  has the pattern's length and each of its code units is a case variant of the pattern's
  code unit at the same place.
\<close>

definition lowerLetters :: jsstring where
  "lowerLetters = units ''abcdefghijklmnopqrstuvwxyz''"

definition upperLetters :: jsstring where
  "upperLetters = units ''ABCDEFGHIJKLMNOPQRSTUVWXYZ''"

definition caseVariants :: "int \<Rightarrow> int list" where
  "caseVariants c =
     c # map snd (filter (\<lambda>(l, u). l = c) (zip lowerLetters upperLetters)) @
     (if c = of_char CHR ''k'' then [0x212A] else [])"

definition matchesIgnoringCase :: "jsstring \<Rightarrow> jsstring \<Rightarrow> bool" where
  "matchesIgnoringCase s pat = list_all2 (\<lambda>u c. u \<in> set (caseVariants c)) s pat"

text \<open>
  What is assumed of the Unicode tables: apart from the Kelvin sign and the capital dotted
  I, a code unit outside ASCII contributes at least one code unit to the lower-case form
  and only code units outside ASCII.
\<close>

definition unicodeOutsideASCII :: "environment \<Rightarrow> bool" where
  "unicodeOutsideASCII k =
     (\<forall>s i. i < length s \<and> 128 \<le> s ! i \<and> s ! i \<noteq> 0x212A \<and> s ! i \<noteq> 0x130 \<longrightarrow>
        unicodeLower k s i \<noteq> [] \<and> (\<forall>x \<in> set (unicodeLower k s i). 128 \<le> x))"

text \<open>
  For the proofs: what one code unit may contribute to the lower-case form, and the
  patterns the oracle looks for, which are ASCII without capitals.
\<close>

definition okSeg :: "int \<Rightarrow> jsstring \<Rightarrow> bool" where
  "okSeg u g =
     (if 65 \<le> u \<and> u \<le> 90 then g = [u + 32]
      else if u < 128 then g = [u]
      else if u = 0x212A then g = [0x6B]
      else if u = 0x130 then g = [0x69, 0x307]
      else g \<noteq> [] \<and> (\<forall>x \<in> set g. 128 \<le> x))"

definition lowerPattern :: "jsstring \<Rightarrow> bool" where
  "lowerPattern p = list_all (\<lambda>c. c < 128 \<and> \<not> (65 \<le> c \<and> c \<le> 90)) p"

subsection \<open>Example data\<close>

text \<open>
  An instance of the constants in line with the part types the comments of the validator
  name, with a Unicode table that leaves the remaining code units as they are, and
  messages of a small conversation.
\<close>

definition exampleEnv :: environment where
  "exampleEnv =
     \<lparr> CONTENT_PART_TYPES = [units ''tool'', units ''tool_use'', units ''text''],
       THINKING_PART_TYPES = [units ''thinking'', units ''redacted_thinking'', units ''reasoning''],
       DEFAULT_THINKING_CONTENT = units ''[Continuing from previous reasoning]'',
       SYNTHETIC_THINKING_ID_PREFIX = units ''prt_0000000000_synthetic_thinking'',
       unicodeLower = (\<lambda>s i. [s ! i]) \<rparr>"

definition mkPart :: "string \<Rightarrow> string option \<Rightarrow> message_part" where
  "mkPart ty th =
     \<lparr> part_type = units ty, part_id = None, part_sessionID = None, part_messageID = None,
       part_text = None, part_thinking = map_option units th, part_synthetic = None \<rparr>"

definition mkInfo :: "string \<Rightarrow> string \<Rightarrow> string option \<Rightarrow> message_info" where
  "mkInfo i r mid =
     \<lparr> info_id = Some (units i), info_role = units r, info_sessionID = Some (units ''ses_1''),
       info_modelID = map_option units mid \<rparr>"

definition mkMessage :: "string \<Rightarrow> string \<Rightarrow> string option \<Rightarrow> message_part list \<Rightarrow> message" where
  "mkMessage i r mid ps = \<lparr> info = Some (mkInfo i r mid), parts = Some ps \<rparr>"

definition userTurn :: message where
  "userTurn = mkMessage ''m0'' ''user'' (Some ''claude-opus-4-thinking'') [mkPart ''text'' None]"

definition toolTurn :: "string \<Rightarrow> message" where
  "toolTurn i = mkMessage i ''assistant'' None [mkPart ''tool_use'' None]"

definition reasonedTurn :: "string \<Rightarrow> string \<Rightarrow> message" where
  "reasonedTurn i t =
     mkMessage i ''assistant'' None [mkPart ''thinking'' (Some t), mkPart ''text'' None]"

definition searchExample :: "message list" where
  "searchExample =
     [reasonedTurn ''m0'' ''reasoning A'', userTurn, reasonedTurn ''m2'' ''reasoning B'',
      mkMessage ''m3'' ''system'' None [mkPart ''thinking'' (Some ''system note'')],
      mkMessage ''m4'' ''assistant'' None [mkPart ''thinking'' (Some ''  ''), mkPart ''text'' None],
      toolTurn ''m5'', reasonedTurn ''m6'' ''reasoning C'']"

text \<open>Two assistant turns that each lack a leading thinking block.\<close>

definition twoViolations :: "message list" where
  "twoViolations =
     [userTurn, toolTurn ''m1'', reasonedTurn ''m2'' ''reasoning A'', toolTurn ''m3'']"

text \<open>
  A violating turn that carries thinking text of its own behind its tool call, between a
  reasoned turn and a second violating turn.
\<close>

definition shadowedExample :: "message list" where
  "shadowedExample =
     [userTurn, reasonedTurn ''m1'' ''reasoning A'',
      mkMessage ''m2'' ''assistant'' None
        [mkPart ''tool_use'' None, mkPart ''thinking'' (Some ''reasoning B'')],
      toolTurn ''m3'']"

definition otherModelExample :: "message list" where
  "otherModelExample =
     [mkMessage ''m0'' ''user'' (Some ''gpt-4'') [mkPart ''text'' None], toolTurn ''m1'']"

definition noUserExample :: "message list" where
  "noUserExample = [toolTurn ''m1'']"


text \<open>
  An assistant turn whose thinking text is white space outside ASCII only: a no-break
  space, an em space and U+FEFF.
\<close>

definition blankTurn :: message where
  "blankTurn =
     \<lparr> info = Some (mkInfo ''m1'' ''assistant'' None),
       parts = Some [(mkPart ''thinking'' None)\<lparr>part_thinking := Some [0xA0, 0x2003, 0xFEFF]\<rparr>,
                     mkPart ''text'' None] \<rparr>"

definition blankExample :: "message list" where
  "blankExample = [userTurn, blankTurn, toolTurn ''m2'']"


text \<open>An assistant turn whose only part is of a type that is listed nowhere.\<close>

definition unknownTypeExample :: "message list" where
  "unknownTypeExample = [userTurn, mkMessage ''m1'' ''assistant'' None [mkPart ''file'' None]]"

definition missingPartsExample :: "message list" where
  "missingPartsExample =
     [userTurn, \<lparr> info = Some (mkInfo ''m1'' ''assistant'' None), parts = None \<rparr>,
      toolTurn ''m2'']"

subsection \<open>Facts about the string primitives\<close>

lemma startsWith_iff: "startsWith s pat \<longleftrightarrow> (\<exists>post. s = pat @ post)"
  by (induction s pat rule: startsWith.induct) auto

lemma str_includes_iff: "str_includes s pat \<longleftrightarrow> (\<exists>pre post. s = pre @ pat @ post)"
proof (induction s)
  case Nil
  then show ?case by (simp add: startsWith_iff)
next
  case (Cons c cs)
  show ?case
  proof
    assume "str_includes (c # cs) pat"
    then consider "startsWith (c # cs) pat" | "str_includes cs pat" by auto
    then show "\<exists>pre post. c # cs = pre @ pat @ post"
    proof cases
      case 1
      then obtain post where "c # cs = pat @ post" by (auto simp: startsWith_iff)
      then have "c # cs = [] @ pat @ post" by simp
      then show ?thesis by blast
    next
      case 2
      with Cons obtain pre post where "cs = pre @ pat @ post" by auto
      then have "c # cs = (c # pre) @ pat @ post" by simp
      then show ?thesis by blast
    qed
  next
    assume "\<exists>pre post. c # cs = pre @ pat @ post"
    then obtain pre post where eq: "c # cs = pre @ pat @ post" by auto
    show "str_includes (c # cs) pat"
    proof (cases pre)
      case Nil
      with eq have "startsWith (c # cs) pat" by (auto simp: startsWith_iff)
      then show ?thesis by simp
    next
      case (Cons a pre')
      with eq have "cs = pre' @ pat @ post" by simp
      with Cons.IH have "str_includes cs pat" by blast
      then show ?thesis by simp
    qed
  qed
qed

lemma endsWith_iff: "endsWith s pat \<longleftrightarrow> (\<exists>pre. s = pre @ pat)"
proof -
  have "endsWith s pat \<longleftrightarrow> (\<exists>post. rev s = rev pat @ post)"
    by (simp add: endsWith_def startsWith_iff)
  also have "\<dots> \<longleftrightarrow> (\<exists>pre. s = pre @ pat)"
  proof
    assume "\<exists>post. rev s = rev pat @ post"
    then obtain post where "rev s = rev pat @ post" by auto
    then have "rev (rev s) = rev (rev pat @ post)" by simp
    then have "s = rev post @ pat" by simp
    then show "\<exists>pre. s = pre @ pat" by blast
  next
    assume "\<exists>pre. s = pre @ pat"
    then obtain pre where "s = pre @ pat" by auto
    then have "rev s = rev pat @ rev pre" by simp
    then show "\<exists>post. rev s = rev pat @ post" by blast
  qed
  finally show ?thesis .
qed

lemma dropWhile_keeps_nonmatching:
  "(\<exists>c \<in> set (dropWhile P s). \<not> P c) \<longleftrightarrow> (\<exists>c \<in> set s. \<not> P c)"
  by (induction s) auto

lemma trim_nonempty_iff: "0 < length (trim s) \<longleftrightarrow> (\<exists>c \<in> set s. \<not> isWhiteSpace c)"
proof -
  have "trim s \<noteq> [] \<longleftrightarrow> (\<exists>c \<in> set (dropWhile isWhiteSpace s). \<not> isWhiteSpace c)"
    by (simp add: trim_def dropWhile_eq_Nil_conv)
  then show ?thesis
    by (simp add: dropWhile_keeps_nonmatching)
qed

subsection \<open>The capability oracle\<close>

lemma zip_letters:
  "zip lowerLetters upperLetters = map (\<lambda>i. (97 + int i, 65 + int i)) [0..<26]"
  by code_simp

lemma upt_as_Collect: "{0..<n} = {i::nat. i < n}"
  by auto

lemma set_zip_letters:
  "set (zip lowerLetters upperLetters) = (\<lambda>i. (97 + int i, 65 + int i)) ` {i. i < 26}"
  by (simp only: zip_letters set_map set_upt upt_as_Collect)

lemma letters_above:
  "snd ` {x \<in> set (zip lowerLetters upperLetters). fst x = c} =
     (if 97 \<le> c \<and> c \<le> 122 then {c - 32} else {})"
proof (cases "97 \<le> c \<and> c \<le> 122")
  case True
  let ?i = "nat (c - 97)"
  from True have i: "?i < 26" "97 + int ?i = c" "65 + int ?i = c - 32"
    by auto
  have "(97 + int ?i, 65 + int ?i) \<in> (\<lambda>i. (97 + int i, 65 + int i)) ` {i. i < 26}"
    using i(1) by blast
  then have "(c, c - 32) \<in> set (zip lowerLetters upperLetters)"
    by (simp only: i(2,3) set_zip_letters)
  then have "c - 32 \<in> snd ` {x \<in> set (zip lowerLetters upperLetters). fst x = c}"
    by force
  then have sub: "{c - 32} \<subseteq> snd ` {x \<in> set (zip lowerLetters upperLetters). fst x = c}"
    by (rule_tac subsetI) (simp only: singleton_iff)
  have "snd ` {x \<in> set (zip lowerLetters upperLetters). fst x = c} \<subseteq> {c - 32}"
  proof
    fix y assume "y \<in> snd ` {x \<in> set (zip lowerLetters upperLetters). fst x = c}"
    then obtain i where "i < 26" "97 + int i = c" "y = 65 + int i"
      unfolding set_zip_letters by auto
    then show "y \<in> {c - 32}" by simp
  qed
  with sub have "snd ` {x \<in> set (zip lowerLetters upperLetters). fst x = c} = {c - 32}"
    by (rule_tac equalityI)
  with True show ?thesis by (simp only: if_True simp_thms)
next
  case False
  have "y \<notin> snd ` {x \<in> set (zip lowerLetters upperLetters). fst x = c}" for y
  proof
    assume "y \<in> snd ` {x \<in> set (zip lowerLetters upperLetters). fst x = c}"
    then obtain i where "i < 26" "97 + int i = c"
      unfolding set_zip_letters by auto
    with False show False by simp
  qed
  then have "snd ` {x \<in> set (zip lowerLetters upperLetters). fst x = c} = {}"
    by blast
  with False show ?thesis by (simp only: if_False simp_thms)
qed

lemma caseVariants_set:
  "set (caseVariants c) =
     {c} \<union> (if 97 \<le> c \<and> c \<le> 122 then {c - 32} else {}) \<union> (if c = 107 then {0x212A} else {})"
proof -
  have k: "(of_char CHR ''k'' :: int) = 107" by simp
  have "set (map snd (filter (\<lambda>(l, u). l = c) (zip lowerLetters upperLetters))) =
      snd ` {x \<in> set (zip lowerLetters upperLetters). fst x = c}"
    by (simp add: case_prod_unfold)
  then show ?thesis
    unfolding caseVariants_def k letters_above by auto
qed

lemma okSeg_head:
  assumes "okSeg u g" and "c < 128" and "\<not> (65 \<le> c \<and> c \<le> 90)"
  shows "(u \<in> set (caseVariants c) \<longrightarrow> g = [c]) \<and>
         (u \<notin> set (caseVariants c) \<longrightarrow>
            g \<noteq> [] \<and> (hd g \<noteq> c \<or> (c = 0x69 \<and> g = [0x69, 0x307])))"
proof (cases g)
  case Nil
  with assms show ?thesis
    unfolding okSeg_def caseVariants_set by (auto split: if_splits)
next
  case (Cons x g')
  with assms show ?thesis
    unfolding okSeg_def caseVariants_set by (auto split: if_splits)
qed

lemma okSeg_nonempty: "okSeg u g \<Longrightarrow> g \<noteq> []"
  unfolding okSeg_def by (auto split: if_splits)

lemma okSeg_tl: "okSeg u g \<Longrightarrow> x \<in> set (tl g) \<Longrightarrow> 128 \<le> x"
  unfolding okSeg_def by (cases g) (auto split: if_splits)

lemma lowerPattern_Cons:
  "lowerPattern (c # p) \<longleftrightarrow> c < 128 \<and> \<not> (65 \<le> c \<and> c \<le> 90) \<and> lowerPattern p"
  by (simp add: lowerPattern_def)


lemma matchesIgnoringCase_Nil [simp]: "matchesIgnoringCase us [] \<longleftrightarrow> us = []"
  by (simp add: matchesIgnoringCase_def)

lemma matchesIgnoringCase_Cons:
  "matchesIgnoringCase us (c # p) \<longleftrightarrow>
     (\<exists>u us'. us = u # us' \<and> u \<in> set (caseVariants c) \<and> matchesIgnoringCase us' p)"
  by (auto simp: matchesIgnoringCase_def list_all2_Cons2)

lemma segments_empty:
  "list_all2 okSeg us gs \<Longrightarrow> concat gs = [] \<Longrightarrow> us = []"
  by (induction rule: list_all2_induct) (auto dest: okSeg_nonempty)

lemma last_tail: "p = [] \<or> last (c # p) \<noteq> x \<Longrightarrow> p = [] \<or> last p \<noteq> x"
  by auto

lemma exact_match:
  "list_all2 okSeg us gs \<Longrightarrow> lowerPattern p \<Longrightarrow> p = [] \<or> last p \<noteq> 0x69 \<Longrightarrow>
   concat gs = p \<longleftrightarrow> matchesIgnoringCase us p"
proof (induction p arbitrary: us gs)
  case Nil
  then show ?case by (auto dest: segments_empty)
next
  case (Cons c p)
  from Cons.prems(2) have c: "c < 128" "\<not> (65 \<le> c \<and> c \<le> 90)" and p: "lowerPattern p"
    by (simp_all add: lowerPattern_Cons)
  from Cons.prems(3) have lastp: "p = [] \<or> last p \<noteq> 0x69" by auto
  show ?case
  proof (cases us)
    case Nil
    with Cons.prems(1) show ?thesis by (simp add: matchesIgnoringCase_Cons)
  next
    case us: (Cons u us')
    with Cons.prems(1) obtain g gs' where gs: "gs = g # gs'" and g: "okSeg u g"
      and rest: "list_all2 okSeg us' gs'"
      by (auto simp: list_all2_Cons1)
    note head = okSeg_head [OF g c]
    show ?thesis
    proof (cases "u \<in> set (caseVariants c)")
      case True
      with head have "g = [c]" by simp
      with gs us True Cons.IH [OF rest p lastp] show ?thesis
        by (simp add: matchesIgnoringCase_Cons)
    next
      case False
      with head have ne: "g \<noteq> []" and alt: "hd g \<noteq> c \<or> (c = 0x69 \<and> g = [0x69, 0x307])"
        by blast+
      have "concat gs \<noteq> c # p"
      proof
        assume eq: "concat gs = c # p"
        with gs ne have "hd g = c" by (cases g) auto
        with alt have c69: "c = 0x69" and g69: "g = [0x69, 0x307]" by auto
        with eq gs have "p = 0x307 # concat gs'" by simp
        with p show False by (simp add: lowerPattern_Cons)
      qed
      with us False show ?thesis by (simp add: matchesIgnoringCase_Cons)
    qed
  qed
qed

lemma prefix_match:
  "list_all2 okSeg us gs \<Longrightarrow> lowerPattern p \<Longrightarrow> p = [] \<or> last p \<noteq> 0x69 \<Longrightarrow>
   startsWith (concat gs) p \<longleftrightarrow> (\<exists>mid rest. us = mid @ rest \<and> matchesIgnoringCase mid p)"
proof (induction p arbitrary: us gs)
  case Nil
  then show ?case by simp
next
  case (Cons c p)
  from Cons.prems(2) have c: "c < 128" "\<not> (65 \<le> c \<and> c \<le> 90)" and p: "lowerPattern p"
    by (simp_all add: lowerPattern_Cons)
  from Cons.prems(3) have lastp: "p = [] \<or> last p \<noteq> 0x69" by auto
  show ?case
  proof (cases us)
    case Nil
    with Cons.prems(1) show ?thesis by (simp add: matchesIgnoringCase_Cons)
  next
    case us: (Cons u us')
    with Cons.prems(1) obtain g gs' where gs: "gs = g # gs'" and g: "okSeg u g"
      and rest: "list_all2 okSeg us' gs'"
      by (auto simp: list_all2_Cons1)
    note head = okSeg_head [OF g c]
    have split: "(\<exists>mid rest. u # us' = mid @ rest \<and> matchesIgnoringCase mid (c # p)) \<longleftrightarrow>
        u \<in> set (caseVariants c) \<and> (\<exists>mid rest. us' = mid @ rest \<and> matchesIgnoringCase mid p)"
      by (auto simp: matchesIgnoringCase_Cons Cons_eq_append_conv)
    show ?thesis
    proof (cases "u \<in> set (caseVariants c)")
      case True
      with head have "g = [c]" by simp
      with gs us True Cons.IH [OF rest p lastp] split show ?thesis
        by simp
    next
      case False
      with head have ne: "g \<noteq> []" and alt: "hd g \<noteq> c \<or> (c = 0x69 \<and> g = [0x69, 0x307])"
        by blast+
      have "\<not> startsWith (concat gs) (c # p)"
      proof
        assume st: "startsWith (concat gs) (c # p)"
        with gs ne have "hd g = c" by (cases g) auto
        with alt have c69: "c = 0x69" and g69: "g = [0x69, 0x307]" by auto
        with st gs have "startsWith (0x307 # concat gs') p" by simp
        with p Cons.prems(3) c69 show False
          by (cases p) (auto simp: lowerPattern_Cons)
      qed
      with us False split show ?thesis by simp
    qed
  qed
qed

lemma high_includes:
  "\<forall>x \<in> set t. 128 \<le> x \<Longrightarrow> lowerPattern p \<Longrightarrow> p \<noteq> [] \<Longrightarrow>
   str_includes (t @ X) p = str_includes X p"
proof (induction t)
  case Nil
  show ?case by simp
next
  case (Cons x t)
  then have "\<not> startsWith (x # t @ X) p"
    by (cases p) (auto simp: lowerPattern_Cons)
  with Cons show ?case by simp
qed

lemma seg_includes:
  assumes "okSeg u g" and "lowerPattern p" and "p \<noteq> []"
  shows "str_includes (g @ X) p \<longleftrightarrow> startsWith (g @ X) p \<or> str_includes X p"
proof -
  from assms(1) obtain x t where g: "g = x # t" by (cases g) (auto dest: okSeg_nonempty)
  from assms(1) g have "\<forall>y \<in> set t. 128 \<le> y" by (auto dest: okSeg_tl)
  then have "str_includes (t @ X) p = str_includes X p"
    using assms(2,3) by (rule high_includes)
  with g show ?thesis by simp
qed

lemma includes_match:
  "list_all2 okSeg us gs \<Longrightarrow> lowerPattern p \<Longrightarrow> p \<noteq> [] \<Longrightarrow> last p \<noteq> 0x69 \<Longrightarrow>
   str_includes (concat gs) p \<longleftrightarrow>
     (\<exists>pre mid post. us = pre @ mid @ post \<and> matchesIgnoringCase mid p)"
proof (induction rule: list_all2_induct)
  case Nil
  then show ?case by (cases p) (auto simp: matchesIgnoringCase_Cons)
next
  case (Cons u us g gs)
  have "str_includes (concat (g # gs)) p \<longleftrightarrow>
      startsWith (concat (g # gs)) p \<or> str_includes (concat gs) p"
    using seg_includes [OF Cons.hyps(1) Cons.prems(1,2)] by simp
  also have "startsWith (concat (g # gs)) p \<longleftrightarrow>
      (\<exists>mid rest. u # us = mid @ rest \<and> matchesIgnoringCase mid p)"
    using Cons.hyps Cons.prems by (intro prefix_match) simp_all
  also have "str_includes (concat gs) p \<longleftrightarrow>
      (\<exists>pre mid post. us = pre @ mid @ post \<and> matchesIgnoringCase mid p)"
    using Cons.prems by (intro Cons.IH)
  finally have step: "str_includes (concat (g # gs)) p \<longleftrightarrow>
      (\<exists>mid rest. u # us = mid @ rest \<and> matchesIgnoringCase mid p) \<or>
      (\<exists>pre mid post. us = pre @ mid @ post \<and> matchesIgnoringCase mid p)" .
  have "(\<exists>pre mid post. u # us = pre @ mid @ post \<and> matchesIgnoringCase mid p) \<longleftrightarrow>
      (\<exists>mid rest. u # us = mid @ rest \<and> matchesIgnoringCase mid p) \<or>
      (\<exists>pre mid post. us = pre @ mid @ post \<and> matchesIgnoringCase mid p)"
  proof
    assume "\<exists>pre mid post. u # us = pre @ mid @ post \<and> matchesIgnoringCase mid p"
    then obtain pre mid post where eq: "u # us = pre @ mid @ post" and m: "matchesIgnoringCase mid p"
      by blast
    show "(\<exists>mid rest. u # us = mid @ rest \<and> matchesIgnoringCase mid p) \<or>
      (\<exists>pre mid post. us = pre @ mid @ post \<and> matchesIgnoringCase mid p)"
    proof (cases pre)
      case Nil
      with eq m show ?thesis by auto
    next
      case (Cons a pre')
      with eq have "us = pre' @ mid @ post" by simp
      with m show ?thesis by blast
    qed
  next
    assume "(\<exists>mid rest. u # us = mid @ rest \<and> matchesIgnoringCase mid p) \<or>
      (\<exists>pre mid post. us = pre @ mid @ post \<and> matchesIgnoringCase mid p)"
    then show "\<exists>pre mid post. u # us = pre @ mid @ post \<and> matchesIgnoringCase mid p"
    proof
      assume "\<exists>mid rest. u # us = mid @ rest \<and> matchesIgnoringCase mid p"
      then obtain mid rest where "u # us = [] @ mid @ rest" "matchesIgnoringCase mid p" by auto
      then show ?thesis by blast
    next
      assume "\<exists>pre mid post. us = pre @ mid @ post \<and> matchesIgnoringCase mid p"
      then obtain pre mid post where "u # us = (u # pre) @ mid @ post" "matchesIgnoringCase mid p"
        by auto
      then show ?thesis by blast
    qed
  qed
  with step show ?case by simp
qed

lemma seg_suffix:
  assumes "okSeg u g" and "lowerPattern p" and "p \<noteq> []"
  shows "(\<exists>pre. g @ X = pre @ p) \<longleftrightarrow> g @ X = p \<or> (\<exists>pre. X = pre @ p)"
proof
  assume "\<exists>pre. g @ X = pre @ p"
  then obtain pre where eq: "g @ X = pre @ p" by blast
  then consider w where "g = pre @ w" "w @ X = p" | w where "g @ w = pre" "X = w @ p"
    unfolding append_eq_append_conv2 by blast
  then show "g @ X = p \<or> (\<exists>pre. X = pre @ p)"
  proof cases
    case 1
    show ?thesis
    proof (cases "pre = [] \<or> w = []")
      case True
      with 1 show ?thesis by auto
    next
      case False
      with 1(1) have "hd w \<in> set (tl g)"
        by (cases pre; cases w) auto
      with assms(1) have "128 \<le> hd w" by (rule okSeg_tl)
      moreover from False 1(2) have "hd p = hd w" by (cases w) auto
      ultimately show ?thesis using assms(2,3) by (cases p) (auto simp: lowerPattern_Cons)
    qed
  next
    case 2
    then show ?thesis by blast
  qed
next
  assume "g @ X = p \<or> (\<exists>pre. X = pre @ p)"
  then show "\<exists>pre. g @ X = pre @ p"
  proof
    assume "g @ X = p"
    then have "g @ X = [] @ p" by simp
    then show ?thesis by blast
  next
    assume "\<exists>pre. X = pre @ p"
    then obtain pre where "g @ X = (g @ pre) @ p" by auto
    then show ?thesis by blast
  qed
qed

lemma endsWith_match:
  "list_all2 okSeg us gs \<Longrightarrow> lowerPattern p \<Longrightarrow> p \<noteq> [] \<Longrightarrow> last p \<noteq> 0x69 \<Longrightarrow>
   endsWith (concat gs) p \<longleftrightarrow> (\<exists>pre mid. us = pre @ mid \<and> matchesIgnoringCase mid p)"
proof (induction rule: list_all2_induct)
  case Nil
  then show ?case by (cases p) (auto simp: endsWith_iff matchesIgnoringCase_Cons)
next
  case (Cons u us g gs)
  have "endsWith (concat (g # gs)) p \<longleftrightarrow> concat (g # gs) = p \<or> endsWith (concat gs) p"
    using seg_suffix [OF Cons.hyps(1) Cons.prems(1,2)] by (simp add: endsWith_iff)
  also have "concat (g # gs) = p \<longleftrightarrow> matchesIgnoringCase (u # us) p"
    using Cons.hyps Cons.prems by (intro exact_match) simp_all
  also have "endsWith (concat gs) p \<longleftrightarrow> (\<exists>pre mid. us = pre @ mid \<and> matchesIgnoringCase mid p)"
    using Cons.prems by (intro Cons.IH)
  finally have step: "endsWith (concat (g # gs)) p \<longleftrightarrow>
      matchesIgnoringCase (u # us) p \<or> (\<exists>pre mid. us = pre @ mid \<and> matchesIgnoringCase mid p)" .
  have "(\<exists>pre mid. u # us = pre @ mid \<and> matchesIgnoringCase mid p) \<longleftrightarrow>
      matchesIgnoringCase (u # us) p \<or> (\<exists>pre mid. us = pre @ mid \<and> matchesIgnoringCase mid p)"
  proof
    assume "\<exists>pre mid. u # us = pre @ mid \<and> matchesIgnoringCase mid p"
    then obtain pre mid where eq: "u # us = pre @ mid" and m: "matchesIgnoringCase mid p" by blast
    show "matchesIgnoringCase (u # us) p \<or> (\<exists>pre mid. us = pre @ mid \<and> matchesIgnoringCase mid p)"
    proof (cases pre)
      case Nil
      with eq m show ?thesis by simp
    next
      case (Cons a pre')
      with eq have "us = pre' @ mid" by simp
      with m show ?thesis by blast
    qed
  next
    assume "matchesIgnoringCase (u # us) p \<or> (\<exists>pre mid. us = pre @ mid \<and> matchesIgnoringCase mid p)"
    then show "\<exists>pre mid. u # us = pre @ mid \<and> matchesIgnoringCase mid p"
    proof
      assume "matchesIgnoringCase (u # us) p"
      moreover have "u # us = [] @ (u # us)" by simp
      ultimately show ?thesis by blast
    next
      assume "\<exists>pre mid. us = pre @ mid \<and> matchesIgnoringCase mid p"
      then obtain pre mid where "u # us = (u # pre) @ mid" "matchesIgnoringCase mid p" by auto
      then show ?thesis by blast
    qed
  qed
  with step show ?case by simp
qed


lemma toLowerCase_segments:
  assumes "unicodeOutsideASCII k"
  shows "list_all2 okSeg s (map (lowerUnit k s) [0..<length s])"
proof -
  have "okSeg (s ! i) (lowerUnit k s i)" if i: "i < length s" for i
  proof (cases "128 \<le> s ! i \<and> s ! i \<noteq> 0x212A \<and> s ! i \<noteq> 0x130")
    case True
    with assms i have "unicodeLower k s i \<noteq> [] \<and> (\<forall>x \<in> set (unicodeLower k s i). 128 \<le> x)"
      unfolding unicodeOutsideASCII_def by blast
    with True show ?thesis
      unfolding okSeg_def lowerUnit_def Let_def by auto
  next
    case False
    then show ?thesis
      unfolding okSeg_def lowerUnit_def Let_def by auto
  qed
  then show ?thesis by (simp add: list_all2_conv_all_nth)
qed

lemma lower_includes_iff:
  assumes "unicodeOutsideASCII k" and "lowerPattern p" and "p \<noteq> []" and "last p \<noteq> 0x69"
  shows "str_includes (toLowerCase k s) p \<longleftrightarrow>
     (\<exists>pre mid post. s = pre @ mid @ post \<and> matchesIgnoringCase mid p)"
  unfolding toLowerCase_def
  using toLowerCase_segments [OF assms(1)] assms(2-4) by (rule includes_match)

lemma lower_endsWith_iff:
  assumes "unicodeOutsideASCII k" and "lowerPattern p" and "p \<noteq> []" and "last p \<noteq> 0x69"
  shows "endsWith (toLowerCase k s) p \<longleftrightarrow>
     (\<exists>pre mid. s = pre @ mid \<and> matchesIgnoringCase mid p)"
  unfolding toLowerCase_def
  using toLowerCase_segments [OF assms(1)] assms(2-4) by (rule endsWith_match)

lemma oracle_patterns:
  "lowerPattern (units ''thinking'') \<and> units ''thinking'' \<noteq> [] \<and> last (units ''thinking'') \<noteq> 0x69"
  "lowerPattern (units ''-high'') \<and> units ''-high'' \<noteq> [] \<and> last (units ''-high'') \<noteq> 0x69"
  "lowerPattern (units ''claude-sonnet-4'') \<and> units ''claude-sonnet-4'' \<noteq> [] \<and>
     last (units ''claude-sonnet-4'') \<noteq> 0x69"
  "lowerPattern (units ''claude-opus-4'') \<and> units ''claude-opus-4'' \<noteq> [] \<and>
     last (units ''claude-opus-4'') \<noteq> 0x69"
  "lowerPattern (units ''claude-3'') \<and> units ''claude-3'' \<noteq> [] \<and> last (units ''claude-3'') \<noteq> 0x69"
  by code_simp+

text \<open>
  Claim C4. The capability oracle is false on the empty identifier, and true on an
  identifier exactly when the identifier is not empty and, read without regard to case,
  has \<open>thinking\<close> as a substring, or \<open>-high\<close> as a suffix, or one of the family fragments
  \<open>claude-sonnet-4\<close>, \<open>claude-opus-4\<close>, \<open>claude-3\<close> as a substring. Reading without
  regard to case is stated through the alphabets, not through \<open>toLowerCase\<close>. The Unicode
  tables enter through the one assumption \<open>unicodeOutsideASCII\<close>. As a HOL function of
  the identifier (and the tables) the oracle is deterministic and has no effect.
\<close>

theorem isExtendedThinkingModel_policy:
  assumes "unicodeOutsideASCII k"
  shows "isExtendedThinkingModel k [] = False \<and>
   (isExtendedThinkingModel k modelID \<longleftrightarrow>
      modelID \<noteq> [] \<and>
      ((\<exists>pre mid post. modelID = pre @ mid @ post \<and>
          matchesIgnoringCase mid (units ''thinking'')) \<or>
       (\<exists>pre mid. modelID = pre @ mid \<and> matchesIgnoringCase mid (units ''-high'')) \<or>
       (\<exists>pre mid post. modelID = pre @ mid @ post \<and>
          (matchesIgnoringCase mid (units ''claude-sonnet-4'') \<or>
           matchesIgnoringCase mid (units ''claude-opus-4'') \<or>
           matchesIgnoringCase mid (units ''claude-3'')))))"
proof -
  let ?low = "toLowerCase k modelID"
  let ?inc = "\<lambda>pat. \<exists>pre mid post. modelID = pre @ mid @ post \<and> matchesIgnoringCase mid pat"
  have empty: "isExtendedThinkingModel k [] = False"
    unfolding isExtendedThinkingModel_def by simp
  have t: "str_includes ?low (units ''thinking'') \<longleftrightarrow> ?inc (units ''thinking'')"
    using assms oracle_patterns(1) by (intro lower_includes_iff) simp_all
  have h: "endsWith ?low (units ''-high'') \<longleftrightarrow>
      (\<exists>pre mid. modelID = pre @ mid \<and> matchesIgnoringCase mid (units ''-high''))"
    using assms oracle_patterns(2) by (intro lower_endsWith_iff) simp_all
  have s: "str_includes ?low (units ''claude-sonnet-4'') \<longleftrightarrow> ?inc (units ''claude-sonnet-4'')"
    using assms oracle_patterns(3) by (intro lower_includes_iff) simp_all
  have opus: "str_includes ?low (units ''claude-opus-4'') \<longleftrightarrow> ?inc (units ''claude-opus-4'')"
    using assms oracle_patterns(4) by (intro lower_includes_iff) simp_all
  have c3: "str_includes ?low (units ''claude-3'') \<longleftrightarrow> ?inc (units ''claude-3'')"
    using assms oracle_patterns(5) by (intro lower_includes_iff) simp_all
  have fam: "(\<exists>pre mid post. modelID = pre @ mid @ post \<and>
          (matchesIgnoringCase mid (units ''claude-sonnet-4'') \<or>
           matchesIgnoringCase mid (units ''claude-opus-4'') \<or>
           matchesIgnoringCase mid (units ''claude-3''))) \<longleftrightarrow>
      ?inc (units ''claude-sonnet-4'') \<or> ?inc (units ''claude-opus-4'') \<or> ?inc (units ''claude-3'')"
    by blast
  have code: "isExtendedThinkingModel k modelID \<longleftrightarrow>
      modelID \<noteq> [] \<and>
      (str_includes ?low (units ''thinking'') \<or> endsWith ?low (units ''-high'') \<or>
       (str_includes ?low (units ''claude-sonnet-4'') \<or>
        str_includes ?low (units ''claude-opus-4'') \<or>
        str_includes ?low (units ''claude-3'')))"
    unfolding isExtendedThinkingModel_def Let_def by (cases "modelID = []") auto
  have "isExtendedThinkingModel k modelID \<longleftrightarrow>
      modelID \<noteq> [] \<and>
      (?inc (units ''thinking'') \<or>
       (\<exists>pre mid. modelID = pre @ mid \<and> matchesIgnoringCase mid (units ''-high'')) \<or>
       (\<exists>pre mid post. modelID = pre @ mid @ post \<and>
          (matchesIgnoringCase mid (units ''claude-sonnet-4'') \<or>
           matchesIgnoringCase mid (units ''claude-opus-4'') \<or>
           matchesIgnoringCase mid (units ''claude-3''))))"
    unfolding code fam t h s opus c3 ..
  with empty show ?thesis by (rule conjI)
qed

theorem isExtendedThinkingModel_policy_witness:
  "isExtendedThinkingModel exampleEnv (units ''GPT-5-HIGH'') \<and>
   isExtendedThinkingModel exampleEnv (units ''My-Thinking-Model'') \<and>
   isExtendedThinkingModel exampleEnv (units ''Claude-OPUS-4-1'') \<and>
   isExtendedThinkingModel exampleEnv (units ''thin'' @ [0x212A] @ units ''ing'') \<and>
   \<not> isExtendedThinkingModel exampleEnv (units ''th'' @ [0x130] @ units ''nking'') \<and>
   \<not> isExtendedThinkingModel exampleEnv (units ''gpt-4'') \<and>
   \<not> isExtendedThinkingModel exampleEnv (units ''high-gpt'') \<and>
   \<not> isExtendedThinkingModel exampleEnv []"
proof -
  have u: "unicodeOutsideASCII exampleEnv"
    unfolding unicodeOutsideASCII_def exampleEnv_def by simp
  note inst = isExtendedThinkingModel_policy [OF u, of "units ''GPT-5-HIGH''"]
  have "units ''GPT-5-HIGH'' = units ''GPT-5'' @ units ''-HIGH''" by code_simp
  moreover have "matchesIgnoringCase (units ''-HIGH'') (units ''-high'')" by code_simp
  moreover have "units ''GPT-5-HIGH'' \<noteq> []" by code_simp
  ultimately have a: "isExtendedThinkingModel exampleEnv (units ''GPT-5-HIGH'')"
    using inst by blast
  have b: "isExtendedThinkingModel exampleEnv (units ''My-Thinking-Model'') \<and>
   isExtendedThinkingModel exampleEnv (units ''Claude-OPUS-4-1'') \<and>
   isExtendedThinkingModel exampleEnv (units ''thin'' @ [0x212A] @ units ''ing'') \<and>
   \<not> isExtendedThinkingModel exampleEnv (units ''th'' @ [0x130] @ units ''nking'') \<and>
   \<not> isExtendedThinkingModel exampleEnv (units ''gpt-4'') \<and>
   \<not> isExtendedThinkingModel exampleEnv (units ''high-gpt'') \<and>
   \<not> isExtendedThinkingModel exampleEnv []"
    by code_simp
  from a b show ?thesis by (rule conjI)
qed

subsection \<open>The per-message checks\<close>

lemma hasContentParts_Some:
  "hasContentParts k (Some xs) \<longleftrightarrow> (\<exists>p \<in> set xs. part_type p \<in> set (CONTENT_PART_TYPES k))"
  by (cases xs) (auto simp: hasContentParts_def list_ex_iff)

lemma hasContentParts_None: "hasContentParts k None = False"
  by (simp add: hasContentParts_def)

lemma startsWithThinkingBlock_Cons:
  "startsWithThinkingBlock k (Some (p # ps)) = thinkingLike k p"
  by (simp add: startsWithThinkingBlock_def thinkingLike_def)

lemma startsWithThinkingBlock_None: "startsWithThinkingBlock k None = False"
  by (simp add: startsWithThinkingBlock_def)

lemma startsWithThinkingBlock_Nil: "startsWithThinkingBlock k (Some []) = False"
  by (simp add: startsWithThinkingBlock_def)

lemma inViolation_parts_None: "parts m = None \<Longrightarrow> \<not> inViolation k m"
  by (simp add: inViolation_def hasContentParts_None)

subsection \<open>The backward search\<close>

lemma nonblank_iff:
  "t \<noteq> [] \<and> 0 < length (trim t) \<longleftrightarrow> list_ex (\<lambda>c. \<not> isWhiteSpace c) t"
  unfolding trim_nonempty_iff list_ex_iff by auto

lemma scanParts_find:
  "scanParts k ps =
     (case find (nonBlankThinking k) ps of None \<Rightarrow> None | Some p \<Rightarrow> thinkingOf p)"
proof (induction ps)
  case Nil
  show ?case by simp
next
  case (Cons p ps)
  show ?case
  proof (cases "nonBlankThinking k p")
    case True
    then obtain t where t: "thinkingOf p = Some t" "list_ex (\<lambda>c. \<not> isWhiteSpace c) t"
      and ty: "part_type p \<in> set (THINKING_PART_TYPES k)"
      by (auto simp: nonBlankThinking_def thinkingLike_def split: option.splits)
    from t(2) have "t \<noteq> [] \<and> 0 < length (trim t)" by (simp only: nonblank_iff)
    with t(1) ty True show ?thesis by simp
  next
    case False
    then have "part_type p \<notin> set (THINKING_PART_TYPES k) \<or> thinkingOf p = None \<or>
        (\<exists>t. thinkingOf p = Some t \<and> \<not> (t \<noteq> [] \<and> 0 < length (trim t)))"
      unfolding nonblank_iff
      by (auto simp: nonBlankThinking_def thinkingLike_def split: option.splits)
    with False Cons.IH show ?thesis by auto
  qed
qed

lemma scanParts_None_iff: "scanParts k ps = None \<longleftrightarrow> \<not> list_ex (nonBlankThinking k) ps"
proof (induction ps)
  case Nil
  show ?case by simp
next
  case (Cons p ps)
  show ?case
  proof (cases "nonBlankThinking k p")
    case True
    then obtain t where "thinkingOf p = Some t"
      by (auto simp: nonBlankThinking_def split: option.splits)
    with True show ?thesis by (simp add: scanParts_find)
  next
    case False
    with Cons.IH show ?thesis by (simp add: scanParts_find)
  qed
qed

lemma scanParts_Some_nonempty: "scanParts k ps = Some t \<Longrightarrow> t \<noteq> []"
  by (induction ps) (auto split: if_splits option.splits)

lemma reusable_iff_scanParts:
  "reusable k m \<longleftrightarrow> hasRole (units ''assistant'') m \<and> scanParts k (partsOf m) \<noteq> None"
  by (simp add: reusable_def scanParts_None_iff)

lemma thinkingTextOf_scanParts:
  "scanParts k (partsOf m) = Some t \<Longrightarrow> thinkingTextOf k m = t"
  by (auto simp: thinkingTextOf_def scanParts_find split: option.splits)

lemma rev_take_Suc: "i < length xs \<Longrightarrow> rev (take (Suc i) xs) = xs ! i # rev (take i xs)"
  by (simp add: take_Suc_conv_app_nth)

lemma findPrevious_loop_find:
  "n \<le> length messages \<Longrightarrow> \<forall>j<n. info (messages ! j) \<noteq> None \<Longrightarrow>
   findPrevious_loop k messages n =
     Inr (case find (reusable k) (rev (take n messages)) of
            None \<Rightarrow> [] | Some m \<Rightarrow> thinkingTextOf k m)"
proof (induction n)
  case 0
  show ?case by simp
next
  case (Suc i)
  then have lt: "i < length messages" and IH: "findPrevious_loop k messages i =
     Inr (case find (reusable k) (rev (take i messages)) of
            None \<Rightarrow> [] | Some m \<Rightarrow> thinkingTextOf k m)"
    by auto
  from Suc.prems obtain minfo where minfo: "info (messages ! i) = Some minfo" by auto
  let ?m = "messages ! i"
  show ?case
  proof (cases "reusable k ?m")
    case True
    then obtain t where t: "scanParts k (partsOf ?m) = Some t" and r: "info_role minfo = units ''assistant''"
      using minfo by (auto simp: reusable_iff_scanParts hasRole_def)
    then obtain ps where ps: "parts ?m = Some ps"
      by (cases "parts ?m") (auto simp: partsOf_def)
    with t have "scanParts k ps = Some t" by (simp add: partsOf_def)
    with lt minfo r ps True thinkingTextOf_scanParts[OF t] show ?thesis
      by (simp add: rev_take_Suc Let_def)
  next
    case False
    then have "info_role minfo \<noteq> units ''assistant'' \<or> parts ?m = None \<or>
      (\<exists>ps. parts ?m = Some ps \<and> scanParts k ps = None)"
      using minfo by (cases "parts ?m") (auto simp: reusable_iff_scanParts hasRole_def partsOf_def)
    with lt minfo False IH show ?thesis
      by (auto simp: rev_take_Suc Let_def)
  qed
qed

lemma findPrevious_loop_take:
  "n \<le> length A \<Longrightarrow> take n B = take n A \<Longrightarrow>
   findPrevious_loop k B n = findPrevious_loop k A n"
proof (induction n)
  case 0
  show ?case by simp
next
  case (Suc i)
  then have lt: "i < length A" by simp
  from Suc.prems have "length (take (Suc i) B) = length (take (Suc i) A)" by simp
  with lt have ltB: "i < length B" by simp
  from Suc.prems have "take (Suc i) B ! i = take (Suc i) A ! i" by simp
  then have same: "B ! i = A ! i" by simp
  from Suc.prems have "take i (take (Suc i) B) = take i (take (Suc i) A)" by simp
  then have "take i B = take i A" by (simp add: min_def)
  with Suc.IH lt have "findPrevious_loop k B i = findPrevious_loop k A i" by simp
  with lt ltB same show ?case by (simp add: Let_def split: option.splits)
qed

lemma find_reusable_nonempty:
  "find (reusable k) xs = Some m \<Longrightarrow> thinkingTextOf k m \<noteq> []"
proof -
  assume "find (reusable k) xs = Some m"
  then have "reusable k m" by (auto simp: find_Some_iff)
  then obtain t where t: "scanParts k (partsOf m) = Some t"
    by (auto simp: reusable_iff_scanParts)
  with thinkingTextOf_scanParts[OF t] scanParts_Some_nonempty[OF t] show ?thesis by simp
qed

lemma wellFormed_nth: "wellFormed C \<Longrightarrow> j < length C \<Longrightarrow> info (C ! j) \<noteq> None"
  by (auto simp: wellFormed_def hasInfo_def list_all_length split: option.splits)

lemma wellFormed_take_nth:
  "wellFormed (take n C) \<Longrightarrow> n \<le> length C \<Longrightarrow> \<forall>j<n. info (C ! j) \<noteq> None"
  using wellFormed_nth [of "take n C"] by auto

lemma find_first:
  "n < length xs \<Longrightarrow> P (xs ! n) \<Longrightarrow> (\<And>n'. n' < n \<Longrightarrow> \<not> P (xs ! n')) \<Longrightarrow>
   find P xs = Some (xs ! n)"
  unfolding find_Some_iff by blast

text \<open>
  Claim C5 has the search return the text of the first non-empty thinking-like part. The
  code asks for more than a non-empty string: \<open>thinking.trim().length > 0\<close>. In
  \<open>searchExample\<close> the assistant message at index 4 starts with a thinking part whose text
  is two spaces; the search from index 5 passes it by and returns the text of the message
  at index 2.
\<close>

theorem findPreviousThinkingContent_blank_counterexample:
  "hasRole (units ''assistant'') (searchExample ! 4) \<and>
   thinkingLike exampleEnv (hd (partsOf (searchExample ! 4))) \<and>
   part_thinking (hd (partsOf (searchExample ! 4))) = Some (units ''  '') \<and>
   findPreviousThinkingContent exampleEnv searchExample 5 = Inr (units ''reasoning B'')"
  by code_simp

text \<open>
  Claim C5, amended. For an index within the conversation whose earlier messages all
  carry their \<open>info\<close>, the backward search returns (it raises nothing and, being a total
  function, ends at index 0). Its result is fixed by the assistant messages before the
  index: the thinking text of the first thinking-like part with a character that is not
  white space, in the most recent message that has such a part, and the empty string when
  none has; user and system messages never count. A part's thinking text is its
  \<open>thinking\<close> field, or its \<open>text\<close> field when the former is absent or empty. The result is
  the same on any conversation that agrees with the given one before the index, so
  nothing at or after the index is read.
\<close>

theorem findPreviousThinkingContent_backward:
  assumes "currentIndex \<le> length messages"
    and "wellFormed (take currentIndex messages)"
  shows "(\<exists>t. findPreviousThinkingContent k messages currentIndex = Inr t) \<and>
    (\<forall>j<currentIndex.
        reusable k (messages ! j) \<and> (\<forall>l. j < l \<and> l < currentIndex \<longrightarrow> \<not> reusable k (messages ! l)) \<longrightarrow>
        findPreviousThinkingContent k messages currentIndex = Inr (thinkingTextOf k (messages ! j))) \<and>
    ((\<forall>j<currentIndex. \<not> reusable k (messages ! j)) \<longrightarrow>
        findPreviousThinkingContent k messages currentIndex = Inr []) \<and>
    (\<forall>others. take currentIndex others = take currentIndex messages \<longrightarrow>
        findPreviousThinkingContent k others currentIndex =
        findPreviousThinkingContent k messages currentIndex)"
proof -
  let ?pre = "rev (take currentIndex messages)"
  have eq: "findPreviousThinkingContent k messages currentIndex =
     Inr (case find (reusable k) ?pre of None \<Rightarrow> [] | Some m \<Rightarrow> thinkingTextOf k m)"
    unfolding findPreviousThinkingContent_def
    using assms(1) wellFormed_take_nth [OF assms(2) assms(1)] by (rule findPrevious_loop_find)
  have len: "length ?pre = currentIndex" using assms(1) by simp
  have nth: "?pre ! n = messages ! (currentIndex - Suc n)" if "n < currentIndex" for n
    using that assms(1) by (simp add: rev_nth)
  have returns: "\<exists>t. findPreviousThinkingContent k messages currentIndex = Inr t"
    unfolding eq by blast
  have found: "findPreviousThinkingContent k messages currentIndex = Inr (thinkingTextOf k (messages ! j))"
    if j: "j < currentIndex" and r: "reusable k (messages ! j)"
      and later: "\<forall>l. j < l \<and> l < currentIndex \<longrightarrow> \<not> reusable k (messages ! l)" for j
  proof -
    let ?n = "currentIndex - Suc j"
    have n: "?n < length ?pre" using j len by simp
    have at: "?pre ! ?n = messages ! j" using j nth[of ?n] by simp
    have before: "\<not> reusable k (?pre ! n')" if "n' < ?n" for n'
    proof -
      from that j have "n' < currentIndex" by simp
      then have "?pre ! n' = messages ! (currentIndex - Suc n')" by (rule nth)
      moreover from that j have "j < currentIndex - Suc n' \<and> currentIndex - Suc n' < currentIndex"
        by auto
      ultimately show ?thesis using later by simp
    qed
    have "find (reusable k) ?pre = Some (?pre ! ?n)"
      using n at r before by (intro find_first) simp_all
    with at have "find (reusable k) ?pre = Some (messages ! j)" by simp
    then show ?thesis unfolding eq by simp
  qed
  have none: "findPreviousThinkingContent k messages currentIndex = Inr []"
    if "\<forall>j<currentIndex. \<not> reusable k (messages ! j)"
  proof -
    have "\<not> reusable k x" if "x \<in> set ?pre" for x
    proof -
      from that have "x \<in> set (take currentIndex messages)" by simp
      then obtain j where "j < length (take currentIndex messages)" "take currentIndex messages ! j = x"
        unfolding in_set_conv_nth by blast
      then have "j < currentIndex" "messages ! j = x" by auto
      with \<open>\<forall>j<currentIndex. \<not> reusable k (messages ! j)\<close> show ?thesis by blast
    qed
    then have "find (reusable k) ?pre = None" unfolding find_None_iff by blast
    then show ?thesis unfolding eq by simp
  qed
  have frame: "findPreviousThinkingContent k others currentIndex =
        findPreviousThinkingContent k messages currentIndex"
    if "take currentIndex others = take currentIndex messages" for others
    unfolding findPreviousThinkingContent_def
    using assms(1) that by (rule findPrevious_loop_take)
  from returns found none frame show ?thesis by blast
qed

theorem findPreviousThinkingContent_backward_witness:
  "findPreviousThinkingContent exampleEnv searchExample 6 = Inr (units ''reasoning B'') \<and>
   thinkingTextOf exampleEnv (searchExample ! 2) = (units ''reasoning B'') \<and>
   findPreviousThinkingContent exampleEnv searchExample 0 = Inr [] \<and>
   findPreviousThinkingContent exampleEnv (take 6 searchExample @ [userTurn]) 6 = Inr (units ''reasoning B'') \<and>
   findPreviousThinkingContent exampleEnv blankExample 2 = Inr []"
proof -
  have len: "(6::nat) \<le> length searchExample" by code_simp
  have infos: "wellFormed (take 6 searchExample)" by code_simp
  note inst = findPreviousThinkingContent_backward [OF len infos, of exampleEnv]
  have r2: "reusable exampleEnv (searchExample ! 2)" by code_simp
  have later: "\<forall>l. 2 < l \<and> l < 6 \<longrightarrow> \<not> reusable exampleEnv (searchExample ! l)"
  proof (intro allI impI)
    fix l :: nat assume "2 < l \<and> l < 6"
    then consider "l = 3" | "l = 4" | "l = 5" by linarith
    then show "\<not> reusable exampleEnv (searchExample ! l)"
    proof cases
      case 1
      have "\<not> reusable exampleEnv (searchExample ! 3)" by code_simp
      with 1 show ?thesis by simp
    next
      case 2
      have "\<not> reusable exampleEnv (searchExample ! 4)" by code_simp
      with 2 show ?thesis by simp
    next
      case 3
      have "\<not> reusable exampleEnv (searchExample ! 5)" by code_simp
      with 3 show ?thesis by simp
    qed
  qed
  from inst have "\<forall>j<6. reusable exampleEnv (searchExample ! j) \<and>
        (\<forall>l. j < l \<and> l < 6 \<longrightarrow> \<not> reusable exampleEnv (searchExample ! l)) \<longrightarrow>
        findPreviousThinkingContent exampleEnv searchExample 6 =
        Inr (thinkingTextOf exampleEnv (searchExample ! j))"
    by blast
  then have "reusable exampleEnv (searchExample ! 2) \<and>
        (\<forall>l. 2 < l \<and> l < 6 \<longrightarrow> \<not> reusable exampleEnv (searchExample ! l)) \<longrightarrow>
        findPreviousThinkingContent exampleEnv searchExample 6 =
        Inr (thinkingTextOf exampleEnv (searchExample ! 2))"
    by simp
  with r2 later have a: "findPreviousThinkingContent exampleEnv searchExample 6 =
      Inr (thinkingTextOf exampleEnv (searchExample ! 2))"
    by blast
  have b: "thinkingTextOf exampleEnv (searchExample ! 2) = (units ''reasoning B'')" by code_simp
  have c: "findPreviousThinkingContent exampleEnv searchExample 0 = Inr []" by code_simp
  have t: "take 6 (take 6 searchExample @ [userTurn]) = take 6 searchExample" by code_simp
  from inst t have d: "findPreviousThinkingContent exampleEnv (take 6 searchExample @ [userTurn]) 6 =
    findPreviousThinkingContent exampleEnv searchExample 6" by blast
  have e: "findPreviousThinkingContent exampleEnv blankExample 2 = Inr []" by code_simp
  from a b c d e show ?thesis by simp
qed

subsection \<open>The repair\<close>

lemma prependThinkingBlock_info:
  "info m = Some minfo \<Longrightarrow>
   prependThinkingBlock k m c = (repaired k m minfo c, None)"
  by (cases "parts m") (simp_all add: prependThinkingBlock_def partsOf_def repaired_def)

lemma repaired_not_inViolation:
  "units ''thinking'' \<in> set (THINKING_PART_TYPES k) \<Longrightarrow>
   \<not> inViolation k (repaired k m minfo c)"
  by (simp add: inViolation_def startsWithThinkingBlock_Cons thinkingLike_def thinkingPart_def
      repaired_def)

subsection \<open>The repair loop, rule by rule\<close>

lemma process_loop_done:
  "\<not> i < length messages \<Longrightarrow> process_loop k messages i = (messages, None)"
  by (subst process_loop.simps) (simp add: Let_def)

lemma process_loop_noinfo:
  "i < length messages \<Longrightarrow> info (messages ! i) = None \<Longrightarrow>
   process_loop k messages i = (messages, Some TypeError)"
  by (subst process_loop.simps) (simp add: Let_def)

lemma process_loop_skip:
  "i < length messages \<Longrightarrow> info (messages ! i) = Some minfo \<Longrightarrow>
   \<not> inViolation k (messages ! i) \<Longrightarrow>
   process_loop k messages i = process_loop k messages (Suc i)"
  by (subst process_loop.simps) (auto simp: inViolation_def hasRole_def Let_def)

lemma process_loop_searchfail:
  "i < length messages \<Longrightarrow> info (messages ! i) = Some minfo \<Longrightarrow>
   inViolation k (messages ! i) \<Longrightarrow> findPreviousThinkingContent k messages i = Inl e \<Longrightarrow>
   process_loop k messages i = (messages, Some e)"
  by (subst process_loop.simps) (auto simp: inViolation_def hasRole_def Let_def)

lemma process_loop_repair:
  "i < length messages \<Longrightarrow> info (messages ! i) = Some minfo \<Longrightarrow>
   inViolation k (messages ! i) \<Longrightarrow> findPreviousThinkingContent k messages i = Inr prev \<Longrightarrow>
   process_loop k messages i =
     process_loop k
       (messages[i := repaired k (messages ! i) minfo (contentOr k prev)])
       (Suc i)"
  by (subst process_loop.simps)
     (auto simp: inViolation_def hasRole_def prependThinkingBlock_info Let_def contentOr_def)

text \<open>An induction rule that follows the five ways one round of the loop can go.\<close>

lemma process_loop_cases_induct [case_names finished noinfo skip searchfail repair]:
  assumes finished: "\<And>messages i. \<not> i < length messages \<Longrightarrow> P messages i"
    and noinfo: "\<And>messages i. i < length messages \<Longrightarrow> info (messages ! i) = None \<Longrightarrow> P messages i"
    and skip: "\<And>messages i minfo. i < length messages \<Longrightarrow> info (messages ! i) = Some minfo \<Longrightarrow>
        \<not> inViolation k (messages ! i) \<Longrightarrow> P messages (Suc i) \<Longrightarrow> P messages i"
    and searchfail: "\<And>messages i minfo e. i < length messages \<Longrightarrow>
        info (messages ! i) = Some minfo \<Longrightarrow> inViolation k (messages ! i) \<Longrightarrow>
        findPreviousThinkingContent k messages i = Inl e \<Longrightarrow> P messages i"
    and repair: "\<And>messages i minfo prev. i < length messages \<Longrightarrow>
        info (messages ! i) = Some minfo \<Longrightarrow> inViolation k (messages ! i) \<Longrightarrow>
        findPreviousThinkingContent k messages i = Inr prev \<Longrightarrow>
        P (messages[i := repaired k (messages ! i) minfo (contentOr k prev)]) (Suc i) \<Longrightarrow>
        P messages i"
  shows "P messages i"
proof (induction "length messages - i" arbitrary: messages i rule: less_induct)
  case less
  show ?case
  proof (cases "i < length messages")
    case False
    then show ?thesis by (rule finished)
  next
    case lt: True
    show ?thesis
    proof (cases "info (messages ! i)")
      case None
      with lt show ?thesis by (rule noinfo)
    next
      case (Some minfo)
      show ?thesis
      proof (cases "inViolation k (messages ! i)")
        case False
        have "P messages (Suc i)" using lt by (intro less) simp
        with lt Some False show ?thesis by (rule skip)
      next
        case True
        show ?thesis
        proof (cases "findPreviousThinkingContent k messages i")
          case (Inl e)
          with lt Some True show ?thesis by (rule searchfail)
        next
          case (Inr prev)
          let ?ms = "messages[i := repaired k (messages ! i) minfo (contentOr k prev)]"
          have "P ?ms (Suc i)" using lt by (intro less) simp
          with lt Some True Inr show ?thesis by (rule repair)
        qed
      qed
    qed
  qed
qed

subsection \<open>What the repair loop leaves alone\<close>

lemma repaired_info: "info (repaired k m minfo c) = info m"
  by (simp add: repaired_def)

lemma process_loop_length: "length (fst (process_loop k messages i)) = length messages"
proof (induction messages i rule: process_loop_cases_induct [where k = k])
  case (finished messages i)
  then show ?case by (simp add: process_loop_done)
next
  case (noinfo messages i)
  then show ?case by (simp add: process_loop_noinfo)
next
  case (skip messages i minfo)
  then show ?case by (simp add: process_loop_skip)
next
  case (searchfail messages i minfo e)
  then show ?case by (simp add: process_loop_searchfail)
next
  case (repair messages i minfo prev)
  then show ?case by (simp add: process_loop_repair)
qed

lemma process_loop_prefix:
  "l < i \<Longrightarrow> fst (process_loop k messages i) ! l = messages ! l"
proof (induction messages i rule: process_loop_cases_induct [where k = k])
  case (finished messages i)
  then show ?case by (simp add: process_loop_done)
next
  case (noinfo messages i)
  then show ?case by (simp add: process_loop_noinfo)
next
  case (skip messages i minfo)
  then show ?case by (simp add: process_loop_skip)
next
  case (searchfail messages i minfo e)
  then show ?case by (simp add: process_loop_searchfail)
next
  case (repair messages i minfo prev)
  then show ?case by (simp add: process_loop_repair)
qed

lemma process_loop_take:
  "take i (fst (process_loop k messages i)) = take i messages"
  by (rule nth_equalityI) (simp_all add: process_loop_length process_loop_prefix)

lemma process_loop_frame:
  "l < length messages \<Longrightarrow>
   fst (process_loop k messages i) ! l = messages ! l \<or>
   (\<exists>minfo c. info (messages ! l) = Some minfo \<and> inViolation k (messages ! l) \<and>
      fst (process_loop k messages i) ! l = repaired k (messages ! l) minfo c)"
proof (induction messages i rule: process_loop_cases_induct [where k = k])
  case (finished messages i)
  then show ?case by (simp add: process_loop_done)
next
  case (noinfo messages i)
  then show ?case by (simp add: process_loop_noinfo)
next
  case (skip messages i minfo)
  then show ?case by (simp add: process_loop_skip)
next
  case (searchfail messages i minfo e)
  then show ?case by (simp add: process_loop_searchfail)
next
  case (repair messages i minfo prev)
  let ?ms = "messages[i := repaired k (messages ! i) minfo (contentOr k prev)]"
  have eq: "process_loop k messages i = process_loop k ?ms (Suc i)"
    using repair.hyps by (rule process_loop_repair)
  show ?case
  proof (cases "l = i")
    case True
    have "fst (process_loop k ?ms (Suc i)) ! i = ?ms ! i"
      by (rule process_loop_prefix) simp
    with True repair.hyps eq show ?thesis by auto
  next
    case False
    with repair.IH repair.prems eq show ?thesis by simp
  qed
qed

lemma process_loop_info:
  "l < length messages \<Longrightarrow> info (fst (process_loop k messages i) ! l) = info (messages ! l)"
  using process_loop_frame [of l messages k i] by (auto simp: repaired_info)

lemma process_loop_wellFormed:
  "\<forall>l<length messages. info (messages ! l) \<noteq> None \<Longrightarrow> snd (process_loop k messages i) = None"
proof (induction messages i rule: process_loop_cases_induct [where k = k])
  case (finished messages i)
  then show ?case by (simp add: process_loop_done)
next
  case (noinfo messages i)
  then show ?case by auto
next
  case (skip messages i minfo)
  then show ?case by (simp add: process_loop_skip)
next
  case (searchfail messages i minfo e)
  then have "i \<le> length messages" "\<forall>j<i. info (messages ! j) \<noteq> None" by auto
  then have "\<exists>t. findPreviousThinkingContent k messages i = Inr t"
    unfolding findPreviousThinkingContent_def by (simp add: findPrevious_loop_find)
  with searchfail.hyps show ?case by simp
next
  case (repair messages i minfo prev)
  let ?ms = "messages[i := repaired k (messages ! i) minfo (contentOr k prev)]"
  have "\<forall>l<length ?ms. info (?ms ! l) \<noteq> None"
    using repair.prems repair.hyps by (auto simp: nth_list_update repaired_info)
  with repair.IH repair.hyps show ?case by (simp add: process_loop_repair)
qed

lemma process_loop_repairs_all:
  "units ''thinking'' \<in> set (THINKING_PART_TYPES k) \<Longrightarrow> snd (process_loop k messages i) = None \<Longrightarrow>
   i \<le> l \<Longrightarrow> l < length messages \<Longrightarrow> \<not> inViolation k (fst (process_loop k messages i) ! l)"
proof (induction messages i rule: process_loop_cases_induct [where k = k])
  case (finished messages i)
  then show ?case by simp
next
  case (noinfo messages i)
  then show ?case by (simp add: process_loop_noinfo)
next
  case (skip messages i minfo)
  have eq: "process_loop k messages i = process_loop k messages (Suc i)"
    using skip.hyps by (rule process_loop_skip)
  show ?case
  proof (cases "l = i")
    case True
    have "fst (process_loop k messages (Suc i)) ! i = messages ! i"
      by (rule process_loop_prefix) simp
    with True skip.hyps eq show ?thesis by simp
  next
    case False
    with skip.IH skip.prems eq show ?thesis by simp
  qed
next
  case (searchfail messages i minfo e)
  then show ?case by (simp add: process_loop_searchfail)
next
  case (repair messages i minfo prev)
  let ?ms = "messages[i := repaired k (messages ! i) minfo (contentOr k prev)]"
  have eq: "process_loop k messages i = process_loop k ?ms (Suc i)"
    using repair.hyps by (rule process_loop_repair)
  show ?case
  proof (cases "l = i")
    case True
    have "fst (process_loop k ?ms (Suc i)) ! i = ?ms ! i"
      by (rule process_loop_prefix) simp
    with True repair.hyps repair.prems(1) eq show ?thesis
      by (simp add: repaired_not_inViolation)
  next
    case False
    with repair.IH repair.prems eq show ?thesis by simp
  qed
qed

lemma process_loop_idem:
  "units ''thinking'' \<in> set (THINKING_PART_TYPES k) \<Longrightarrow>
   process_loop k (fst (process_loop k messages i)) i = process_loop k messages i"
proof (induction messages i rule: process_loop_cases_induct [where k = k])
  case (finished messages i)
  then show ?case by (simp add: process_loop_done)
next
  case (noinfo messages i)
  then show ?case by (simp add: process_loop_noinfo)
next
  case (skip messages i minfo)
  let ?r = "process_loop k messages (Suc i)"
  have eq: "process_loop k messages i = ?r"
    using skip.hyps by (rule process_loop_skip)
  have at: "fst ?r ! i = messages ! i"
    by (rule process_loop_prefix) simp
  have "process_loop k (fst ?r) i = process_loop k (fst ?r) (Suc i)"
    using skip.hyps at by (intro process_loop_skip [where minfo = minfo]) (simp_all add: process_loop_length)
  with skip.IH skip.prems eq show ?case by simp
next
  case (searchfail messages i minfo e)
  then show ?case by (simp add: process_loop_searchfail)
next
  case (repair messages i minfo prev)
  let ?ms = "messages[i := repaired k (messages ! i) minfo (contentOr k prev)]"
  let ?r = "process_loop k ?ms (Suc i)"
  have eq: "process_loop k messages i = ?r"
    using repair.hyps by (rule process_loop_repair)
  have "fst ?r ! i = ?ms ! i"
    by (rule process_loop_prefix) simp
  with repair.hyps have at: "fst ?r ! i = repaired k (messages ! i) minfo (contentOr k prev)"
    by simp
  have "process_loop k (fst ?r) i = process_loop k (fst ?r) (Suc i)"
    using repair.hyps repair.prems at
    by (intro process_loop_skip [where minfo = minfo])
       (simp_all add: process_loop_length repaired_info repaired_not_inViolation)
  with repair.IH repair.prems eq show ?case by simp
qed

lemma process_loop_error:
  "\<forall>j<i. info (messages ! j) \<noteq> None \<Longrightarrow> snd (process_loop k messages i) \<noteq> None \<Longrightarrow>
   \<exists>j. i \<le> j \<and> j < length messages \<and> info (messages ! j) = None \<and>
       (\<forall>l. j \<le> l \<and> l < length messages \<longrightarrow> fst (process_loop k messages i) ! l = messages ! l)"
proof (induction messages i rule: process_loop_cases_induct [where k = k])
  case (finished messages i)
  then show ?case by (simp add: process_loop_done)
next
  case (noinfo messages i)
  then have "i \<le> i \<and> i < length messages \<and> info (messages ! i) = None \<and>
       (\<forall>l. i \<le> l \<and> l < length messages \<longrightarrow> fst (process_loop k messages i) ! l = messages ! l)"
    by (simp add: process_loop_noinfo)
  then show ?case by blast
next
  case (skip messages i minfo)
  have eq: "process_loop k messages i = process_loop k messages (Suc i)"
    using skip.hyps by (rule process_loop_skip)
  have "\<forall>j<Suc i. info (messages ! j) \<noteq> None"
    using skip.prems(1) skip.hyps(2) by (auto simp: less_Suc_eq)
  with skip.IH skip.prems(2) eq obtain j where
    "Suc i \<le> j \<and> j < length messages \<and> info (messages ! j) = None \<and>
       (\<forall>l. j \<le> l \<and> l < length messages \<longrightarrow> fst (process_loop k messages i) ! l = messages ! l)"
    by auto
  then have "i \<le> j \<and> j < length messages \<and> info (messages ! j) = None \<and>
       (\<forall>l. j \<le> l \<and> l < length messages \<longrightarrow> fst (process_loop k messages i) ! l = messages ! l)"
    by simp
  then show ?case by blast
next
  case (searchfail messages i minfo e)
  then have "i \<le> length messages" "\<forall>j<i. info (messages ! j) \<noteq> None" by auto
  then have "\<exists>t. findPreviousThinkingContent k messages i = Inr t"
    unfolding findPreviousThinkingContent_def by (simp add: findPrevious_loop_find)
  with searchfail.hyps show ?case by simp
next
  case (repair messages i minfo prev)
  let ?ms = "messages[i := repaired k (messages ! i) minfo (contentOr k prev)]"
  have eq: "process_loop k messages i = process_loop k ?ms (Suc i)"
    using repair.hyps by (rule process_loop_repair)
  have "\<forall>j<Suc i. info (?ms ! j) \<noteq> None"
    using repair.prems(1) repair.hyps by (auto simp: less_Suc_eq nth_list_update repaired_info)
  with repair.IH repair.prems(2) eq obtain j where j:
    "Suc i \<le> j" "j < length messages" "info (?ms ! j) = None"
       "\<forall>l. j \<le> l \<and> l < length messages \<longrightarrow> fst (process_loop k messages i) ! l = ?ms ! l"
    by auto
  then have "i \<le> j \<and> j < length messages \<and> info (messages ! j) = None \<and>
       (\<forall>l. j \<le> l \<and> l < length messages \<longrightarrow> fst (process_loop k messages i) ! l = messages ! l)"
    by (auto simp: nth_list_update)
  then show ?case by blast
qed

subsection \<open>The content of a repair\<close>

lemma reuseContent_take:
  "take i A = take i B \<Longrightarrow> reuseContent k A i = reuseContent k B i"
  by (simp add: reuseContent_def)

lemma contentOr_search:
  assumes "i \<le> length messages" and "\<forall>j<i. info (messages ! j) \<noteq> None"
    and "findPreviousThinkingContent k messages i = Inr prev"
  shows "contentOr k prev = reuseContent k messages i"
proof -
  from assms have prev: "prev = (case find (reusable k) (rev (take i messages)) of
            None \<Rightarrow> [] | Some m \<Rightarrow> thinkingTextOf k m)"
    unfolding findPreviousThinkingContent_def by (simp add: findPrevious_loop_find)
  show ?thesis
  proof (cases "find (reusable k) (rev (take i messages))")
    case None
    with prev show ?thesis by (simp add: contentOr_def reuseContent_def)
  next
    case (Some m)
    then have "thinkingTextOf k m \<noteq> []" by (rule find_reusable_nonempty)
    with prev Some show ?thesis by (simp add: contentOr_def reuseContent_def)
  qed
qed

lemma process_loop_content:
  "\<forall>j<i. info (messages ! j) \<noteq> None \<Longrightarrow> l < length messages \<Longrightarrow>
   fst (process_loop k messages i) ! l \<noteq> messages ! l \<Longrightarrow>
   \<exists>minfo. info (messages ! l) = Some minfo \<and> inViolation k (messages ! l) \<and>
     fst (process_loop k messages i) ! l =
       repaired k (messages ! l) minfo (reuseContent k (fst (process_loop k messages i)) l)"
proof (induction messages i rule: process_loop_cases_induct [where k = k])
  case (finished messages i)
  then show ?case by (simp add: process_loop_done)
next
  case (noinfo messages i)
  then show ?case by (simp add: process_loop_noinfo)
next
  case (skip messages i minfo)
  have eq: "process_loop k messages i = process_loop k messages (Suc i)"
    using skip.hyps by (rule process_loop_skip)
  have "\<forall>j<Suc i. info (messages ! j) \<noteq> None"
    using skip.prems(1) skip.hyps(2) by (auto simp: less_Suc_eq)
  with skip.IH skip.prems eq show ?case by simp
next
  case (searchfail messages i minfo e)
  then show ?case by (simp add: process_loop_searchfail)
next
  case (repair messages i minfo prev)
  let ?c = "contentOr k prev"
  let ?ms = "messages[i := repaired k (messages ! i) minfo ?c]"
  let ?r = "process_loop k ?ms (Suc i)"
  have eq: "process_loop k messages i = ?r"
    using repair.hyps by (rule process_loop_repair)
  have pre: "\<forall>j<Suc i. info (?ms ! j) \<noteq> None"
    using repair.prems(1) repair.hyps by (auto simp: less_Suc_eq nth_list_update repaired_info)
  show ?case
  proof (cases "l = i")
    case True
    have "fst ?r ! i = ?ms ! i"
      by (rule process_loop_prefix) simp
    with repair.hyps have at: "fst ?r ! i = repaired k (messages ! i) minfo ?c" by simp
    have "take i (fst ?r) = take i (take (Suc i) (fst ?r))" by (simp add: min_def)
    also have "\<dots> = take i (take (Suc i) ?ms)" by (simp only: process_loop_take)
    also have "\<dots> = take i messages" by (simp add: min_def)
    finally have "reuseContent k (fst ?r) i = reuseContent k messages i"
      by (rule reuseContent_take)
    moreover have "?c = reuseContent k messages i"
      using repair.hyps(1) repair.prems(1) repair.hyps(4)
      by (intro contentOr_search) simp_all
    ultimately show ?thesis using True at eq repair.hyps by simp
  next
    case False
    with repair.prems eq have "fst ?r ! l \<noteq> ?ms ! l" "l < length ?ms" by simp_all
    with repair.IH pre obtain minfo' where
      "info (?ms ! l) = Some minfo'" "inViolation k (?ms ! l)"
      "fst ?r ! l = repaired k (?ms ! l) minfo' (reuseContent k (fst ?r) l)"
      by blast
    with False eq show ?thesis by simp
  qed
qed

subsection \<open>The search for the last user message\<close>

lemma lastUserMessage_loop_find:
  "n \<le> length messages \<Longrightarrow> lastUserMessage_loop messages n = Inr u \<Longrightarrow>
   u = find (hasRole (units ''user'')) (rev (take n messages))"
proof (induction n)
  case 0
  then show ?case by simp
next
  case (Suc i)
  then have lt: "i < length messages" by simp
  with Suc.prems obtain minfo where minfo: "info (messages ! i) = Some minfo"
    by (cases "info (messages ! i)") auto
  show ?case
  proof (cases "info_role minfo = units ''user''")
    case True
    with lt minfo Suc.prems show ?thesis
      by (simp add: rev_take_Suc hasRole_def)
  next
    case False
    with lt minfo Suc.prems Suc.IH show ?thesis
      by (simp add: rev_take_Suc hasRole_def)
  qed
qed

lemma lastUserMessage_loop_returns:
  "n \<le> length messages \<Longrightarrow> \<forall>j<n. info (messages ! j) \<noteq> None \<Longrightarrow>
   \<exists>u. lastUserMessage_loop messages n = Inr u"
proof (induction n)
  case 0
  then show ?case by simp
next
  case (Suc i)
  then have lt: "i < length messages" by simp
  from Suc.prems obtain minfo where minfo: "info (messages ! i) = Some minfo" by auto
  from Suc have "\<exists>u. lastUserMessage_loop messages i = Inr u" by simp
  with lt minfo show ?case by simp
qed

lemma lastUserMessage_loop_infos:
  "n \<le> length A \<Longrightarrow> length B = length A \<Longrightarrow> \<forall>l<length A. info (B ! l) = info (A ! l) \<Longrightarrow>
   map_sum (\<lambda>e. e) modelIDOf (lastUserMessage_loop B n) = map_sum (\<lambda>e. e) modelIDOf (lastUserMessage_loop A n)"
proof (induction n)
  case 0
  then show ?case by simp
next
  case (Suc i)
  then have lt: "i < length A" "i < length B" and same: "info (B ! i) = info (A ! i)"
    by auto
  have IH: "map_sum (\<lambda>e. e) modelIDOf (lastUserMessage_loop B i) =
            map_sum (\<lambda>e. e) modelIDOf (lastUserMessage_loop A i)"
    using Suc.prems by (intro Suc.IH) simp_all
  show ?case
  proof (cases "info (A ! i)")
    case None
    with lt same show ?thesis by simp
  next
    case (Some minfo)
    from same have "modelIDOf (Some (B ! i)) = modelIDOf (Some (A ! i))"
      by (simp add: modelIDOf_def)
    with Some lt same IH show ?thesis by simp
  qed
qed

lemma messagesTransform_wellFormed:
  assumes "wellFormed C"
  shows "messagesTransform k C =
     (if isExtendedThinkingModel k (activeModel C) then process_loop k C 0 else (C, None))"
proof (cases "C = []")
  case True
  then show ?thesis
    by (simp add: messagesTransform_def process_loop_done)
next
  case False
  from assms have infos: "\<forall>j<length C. info (C ! j) \<noteq> None"
    by (simp add: wellFormed_nth)
  then obtain u where u: "lastUserMessage_loop C (length C) = Inr u"
    using lastUserMessage_loop_returns [of "length C" C] by auto
  then have "u = latestUserMessage C"
    using lastUserMessage_loop_find [of "length C" C u] by (simp add: latestUserMessage_def)
  with u False show ?thesis
    by (simp add: messagesTransform_def activeModel_def)
qed

lemma messagesTransform_state:
  "fst (messagesTransform k C) = C \<or>
   (isExtendedThinkingModel k (activeModel C) \<and> messagesTransform k C = process_loop k C 0)"
proof (cases "lastUserMessage_loop C (length C)")
  case (Inl e)
  then show ?thesis by (simp add: messagesTransform_def)
next
  case (Inr u)
  then have "u = latestUserMessage C"
    using lastUserMessage_loop_find [of "length C" C u] by (simp add: latestUserMessage_def)
  with Inr show ?thesis
    by (simp add: messagesTransform_def activeModel_def)
qed

subsection \<open>The claims on the whole-conversation transform\<close>

text \<open>
  What the transform establishes, with the code's own test for content: let every message
  of the conversation carry its \<open>info\<close>, let the model identifier of the most recent user
  message be enforcing, and let \<open>thinking\<close>, the type the repair gives its synthetic part,
  be one of the thinking-like types. Then the transform returns without an error, and in
  the conversation it leaves every assistant message for which \<open>hasContentParts\<close> holds
  starts with a thinking-like part. The loop goes through all messages, so this holds for
  every such message, not only the first.
\<close>

lemma messagesTransform_establishes_invariant:
  assumes "wellFormed C" and "isExtendedThinkingModel k (activeModel C)"
    and "units ''thinking'' \<in> set (THINKING_PART_TYPES k)"
  shows "snd (messagesTransform k C) = None \<and>
    (\<forall>m \<in> set (fst (messagesTransform k C)).
        hasRole (units ''assistant'') m \<and> hasContentParts k (parts m) \<longrightarrow>
        startsWithThinkingBlock k (parts m))"
proof -
  from assms(1,2) have eq: "messagesTransform k C = process_loop k C 0"
    by (simp add: messagesTransform_wellFormed)
  from assms(1) have infos: "\<forall>l<length C. info (C ! l) \<noteq> None"
    by (simp add: wellFormed_nth)
  then have ok: "snd (process_loop k C 0) = None"
    by (rule process_loop_wellFormed)
  have "startsWithThinkingBlock k (parts m)"
    if m: "m \<in> set (fst (process_loop k C 0))"
      and a: "hasRole (units ''assistant'') m" and c: "hasContentParts k (parts m)" for m
  proof -
    from m obtain l where l: "l < length C" and at: "fst (process_loop k C 0) ! l = m"
      unfolding in_set_conv_nth by (auto simp: process_loop_length)
    from assms(3) ok l have "\<not> inViolation k (fst (process_loop k C 0) ! l)"
      by (intro process_loop_repairs_all) simp_all
    with at a c show ?thesis by (simp add: inViolation_def)
  qed
  with ok eq show ?thesis by simp
qed

lemma messagesTransform_establishes_invariant_example:
  "snd (messagesTransform exampleEnv twoViolations) = None \<and>
   inViolation exampleEnv (twoViolations ! 1) \<and>
   inViolation exampleEnv (twoViolations ! 3) \<and>
   startsWithThinkingBlock exampleEnv
     (parts (fst (messagesTransform exampleEnv twoViolations) ! 1)) \<and>
   startsWithThinkingBlock exampleEnv
     (parts (fst (messagesTransform exampleEnv twoViolations) ! 3))"
proof -
  let ?k = exampleEnv
  let ?C' = "fst (messagesTransform ?k twoViolations)"
  have wf: "wellFormed twoViolations" by code_simp
  have enf: "isExtendedThinkingModel exampleEnv (activeModel twoViolations)" by code_simp
  have th: "units ''thinking'' \<in> set (THINKING_PART_TYPES ?k)" by code_simp
  note inst = messagesTransform_establishes_invariant [OF wf enf th]
  have len: "length ?C' = 4" by code_simp
  have in1: "?C' ! 1 \<in> set ?C'" and in3: "?C' ! 3 \<in> set ?C'"
    using len by (simp_all only: nth_mem)
  have a1: "hasRole (units ''assistant'') (?C' ! 1) \<and> hasContentParts ?k (parts (?C' ! 1))" by code_simp
  have a3: "hasRole (units ''assistant'') (?C' ! 3) \<and> hasContentParts ?k (parts (?C' ! 3))" by code_simp
  from inst in1 a1 have s1: "startsWithThinkingBlock ?k (parts (?C' ! 1))" by blast
  from inst in3 a3 have s3: "startsWithThinkingBlock ?k (parts (?C' ! 3))" by blast
  have v1: "inViolation ?k (twoViolations ! 1)" by code_simp
  have v3: "inViolation ?k (twoViolations ! 3)" by code_simp
  from inst s1 s3 v1 v3 show ?thesis by blast
qed

text \<open>
  Claim C1. For the claim a message has content as soon as one of its parts is not
  thinking-like. \<open>hasContentParts\<close> asks for a part of a listed content type instead, so
  an assistant message whose parts are all of types listed nowhere is not taken for a
  violation: under an enforcing model the transform returns normally on
  \<open>unknownTypeExample\<close> and leaves the assistant message with its one part of type \<open>file\<close>,
  which is not thinking-like, in front.
\<close>

theorem messagesTransform_unknown_type_unrepaired:
  "wellFormed unknownTypeExample \<and>
   isExtendedThinkingModel exampleEnv (activeModel unknownTypeExample) \<and>
   snd (messagesTransform exampleEnv unknownTypeExample) = None \<and>
   hasRole (units ''assistant'') (fst (messagesTransform exampleEnv unknownTypeExample) ! 1) \<and>
   map part_type (partsOf (fst (messagesTransform exampleEnv unknownTypeExample) ! 1)) =
     [units ''file''] \<and>
   list_ex (\<lambda>p. \<not> thinkingLike exampleEnv p)
     (partsOf (fst (messagesTransform exampleEnv unknownTypeExample) ! 1)) \<and>
   \<not> startsWithThinkingBlock exampleEnv
       (parts (fst (messagesTransform exampleEnv unknownTypeExample) ! 1))"
  by code_simp

text \<open>
  Claim C2. With \<open>thinking\<close> among the thinking-like types, the transform is idempotent:
  run on the conversation it has left, it returns the same conversation (and the same
  outcome), for every conversation.
\<close>

theorem messagesTransform_idempotent:
  assumes "units ''thinking'' \<in> set (THINKING_PART_TYPES k)"
  shows "messagesTransform k (fst (messagesTransform k C)) = messagesTransform k C"
proof (cases "fst (messagesTransform k C) = C")
  case True
  then show ?thesis by simp
next
  case False
  let ?M = "fst (process_loop k C 0)"
  from False have enf: "isExtendedThinkingModel k (activeModel C)"
    and eq: "messagesTransform k C = process_loop k C 0"
    using messagesTransform_state [of k C] by auto
  from False have ne: "length C \<noteq> 0"
    by (auto simp: messagesTransform_def)
  from False obtain u where u: "lastUserMessage_loop C (length C) = Inr u"
    by (cases "lastUserMessage_loop C (length C)")
       (auto simp: messagesTransform_def split: if_splits)
  then have "u = latestUserMessage C"
    using lastUserMessage_loop_find [of "length C" C u] by (simp add: latestUserMessage_def)
  with enf have enfu: "isExtendedThinkingModel k (modelIDOf u)"
    by (simp add: activeModel_def)
  have len: "length ?M = length C" by (rule process_loop_length)
  have "map_sum (\<lambda>e. e) modelIDOf (lastUserMessage_loop ?M (length C)) =
        map_sum (\<lambda>e. e) modelIDOf (lastUserMessage_loop C (length C))"
    by (rule lastUserMessage_loop_infos) (simp_all add: len process_loop_info)
  with u obtain u' where u': "lastUserMessage_loop ?M (length C) = Inr u'"
    and same: "modelIDOf u' = modelIDOf u"
    by (cases "lastUserMessage_loop ?M (length C)") auto
  from u' same enfu ne len have "messagesTransform k ?M = process_loop k ?M 0"
    by (simp add: messagesTransform_def)
  also have "\<dots> = process_loop k C 0"
    using assms by (rule process_loop_idem)
  finally show ?thesis using eq by simp
qed

theorem messagesTransform_idempotent_witness:
  "messagesTransform exampleEnv (fst (messagesTransform exampleEnv twoViolations)) =
     messagesTransform exampleEnv twoViolations \<and>
   map (\<lambda>m. length (partsOf m)) twoViolations = [1, 1, 2, 1] \<and>
   map (\<lambda>m. length (partsOf m)) (fst (messagesTransform exampleEnv twoViolations)) =
     [1, 2, 2, 2]"
proof -
  have th: "units ''thinking'' \<in> set (THINKING_PART_TYPES exampleEnv)" by code_simp
  have a: "map (\<lambda>m. length (partsOf m)) twoViolations = [1, 1, 2, 1]" by code_simp
  have b: "map (\<lambda>m. length (partsOf m)) (fst (messagesTransform exampleEnv twoViolations)) =
     [1, 2, 2, 2]" by code_simp
  from messagesTransform_idempotent [OF th, of twoViolations] a b show ?thesis by blast
qed

lemma filter_repaired:
  "units ''thinking'' \<in> set (THINKING_PART_TYPES k) \<Longrightarrow>
   filter (\<lambda>p. \<not> thinkingLike k p) (partsOf (repaired k m minfo c)) =
   filter (\<lambda>p. \<not> thinkingLike k p) (partsOf m)"
  by (simp add: repaired_def partsOf_def thinkingLike_def thinkingPart_def)

lemma messagesTransform_frame:
  "l < length C \<Longrightarrow>
   fst (messagesTransform k C) ! l = C ! l \<or>
   (\<exists>minfo c. info (C ! l) = Some minfo \<and> inViolation k (C ! l) \<and>
      fst (messagesTransform k C) ! l = repaired k (C ! l) minfo c)"
  using messagesTransform_state [of k C] process_loop_frame [of l C k 0] by auto

lemma messagesTransform_length: "length (fst (messagesTransform k C)) = length C"
  using messagesTransform_state [of k C] process_loop_length [of k C 0] by auto

text \<open>
  Claim C7. On a message that carries its \<open>info\<close>, \<open>prependThinkingBlock\<close> puts one new part
  in front of the message's parts and changes nothing else: a part of type \<open>thinking\<close> with
  the supplied content, the fixed synthetic identifier, the message's session identifier
  (the empty string when the message has none), the message's identifier, and
  \<open>synthetic\<close> set. The transform keeps the number and the order of the messages and the
  \<open>info\<close> of each; every message is left as it was, or is an assistant message with one
  such part prepended; and, \<open>thinking\<close> being thinking-like, the sequence of the parts that
  are not thinking-like is the same before and after, for every message.
\<close>

theorem prependThinkingBlock_frame:
  "(info m = Some minfo \<longrightarrow>
      prependThinkingBlock k m c =
        (m\<lparr>parts := Some (\<lparr> part_type = units ''thinking'',
                              part_id = Some (SYNTHETIC_THINKING_ID_PREFIX k),
                              part_sessionID =
                                Some (case info_sessionID minfo of None \<Rightarrow> [] | Some s \<Rightarrow> s),
                              part_messageID = info_id minfo,
                              part_text = None,
                              part_thinking = Some c,
                              part_synthetic = Some True \<rparr> # partsOf m)\<rparr>, None)) \<and>
   length (fst (messagesTransform k C)) = length C \<and>
   (\<forall>i<length C.
      info (fst (messagesTransform k C) ! i) = info (C ! i) \<and>
      (fst (messagesTransform k C) ! i = C ! i \<or>
       (\<exists>minfo c. info (C ! i) = Some minfo \<and> hasRole (units ''assistant'') (C ! i) \<and>
          fst (messagesTransform k C) ! i = repaired k (C ! i) minfo c)) \<and>
      (units ''thinking'' \<in> set (THINKING_PART_TYPES k) \<longrightarrow>
         filter (\<lambda>p. \<not> thinkingLike k p) (partsOf (fst (messagesTransform k C) ! i)) =
         filter (\<lambda>p. \<not> thinkingLike k p) (partsOf (C ! i))))"
proof -
  have session: "(case info_sessionID minfo of None \<Rightarrow> [] | Some s \<Rightarrow> if s \<noteq> [] then s else []) =
      (case info_sessionID minfo of None \<Rightarrow> [] | Some s \<Rightarrow> s)"
    by (cases "info_sessionID minfo") auto
  have one: "prependThinkingBlock k m c =
        (m\<lparr>parts := Some (\<lparr> part_type = units ''thinking'',
                              part_id = Some (SYNTHETIC_THINKING_ID_PREFIX k),
                              part_sessionID =
                                Some (case info_sessionID minfo of None \<Rightarrow> [] | Some s \<Rightarrow> s),
                              part_messageID = info_id minfo,
                              part_text = None,
                              part_thinking = Some c,
                              part_synthetic = Some True \<rparr> # partsOf m)\<rparr>, None)"
    if "info m = Some minfo"
    using that session by (simp add: prependThinkingBlock_info repaired_def thinkingPart_def)
  have each: "info (fst (messagesTransform k C) ! i) = info (C ! i) \<and>
      (fst (messagesTransform k C) ! i = C ! i \<or>
       (\<exists>minfo c. info (C ! i) = Some minfo \<and> hasRole (units ''assistant'') (C ! i) \<and>
          fst (messagesTransform k C) ! i = repaired k (C ! i) minfo c)) \<and>
      (units ''thinking'' \<in> set (THINKING_PART_TYPES k) \<longrightarrow>
         filter (\<lambda>p. \<not> thinkingLike k p) (partsOf (fst (messagesTransform k C) ! i)) =
         filter (\<lambda>p. \<not> thinkingLike k p) (partsOf (C ! i)))"
    if "i < length C" for i
  proof -
    from that consider "fst (messagesTransform k C) ! i = C ! i"
      | minfo' c' where "info (C ! i) = Some minfo'" "inViolation k (C ! i)"
          "fst (messagesTransform k C) ! i = repaired k (C ! i) minfo' c'"
      using messagesTransform_frame [of i C k] by blast
    then show ?thesis
    proof cases
      case 1
      then show ?thesis by simp
    next
      case 2
      then have "hasRole (units ''assistant'') (C ! i)" by (simp add: inViolation_def)
      with 2 show ?thesis by (auto simp: repaired_info filter_repaired)
    qed
  qed
  from one each messagesTransform_length [of k C] show ?thesis by blast
qed

theorem prependThinkingBlock_frame_witness:
  "fst (prependThinkingBlock exampleEnv (toolTurn ''m1'') (units ''note'')) =
     (toolTurn ''m1'')\<lparr>parts := Some (\<lparr> part_type = units ''thinking'',
                              part_id = Some (units ''prt_0000000000_synthetic_thinking''),
                              part_sessionID = Some (units ''ses_1''),
                              part_messageID = Some (units ''m1''),
                              part_text = None,
                              part_thinking = Some (units ''note''),
                              part_synthetic = Some True \<rparr> # [mkPart ''tool_use'' None])\<rparr> \<and>
   length (fst (messagesTransform exampleEnv twoViolations)) = 4 \<and>
   info (fst (messagesTransform exampleEnv twoViolations) ! 3) = info (twoViolations ! 3) \<and>
   filter (\<lambda>p. \<not> thinkingLike exampleEnv p)
     (partsOf (fst (messagesTransform exampleEnv twoViolations) ! 3)) =
   filter (\<lambda>p. \<not> thinkingLike exampleEnv p) (partsOf (twoViolations ! 3))"
proof -
  let ?k = exampleEnv
  have i: "info (toolTurn ''m1'') = Some (mkInfo ''m1'' ''assistant'' None)"
    by (simp add: toolTurn_def mkMessage_def)
  have len: "(3::nat) < length twoViolations" by code_simp
  have th: "units ''thinking'' \<in> set (THINKING_PART_TYPES ?k)" by code_simp
  note inst = prependThinkingBlock_frame [of "toolTurn ''m1''" "mkInfo ''m1'' ''assistant'' None"
      ?k "units ''note''" twoViolations]
  from inst i have a: "prependThinkingBlock ?k (toolTurn ''m1'') (units ''note'') =
        ((toolTurn ''m1'')\<lparr>parts := Some (\<lparr> part_type = units ''thinking'',
                              part_id = Some (SYNTHETIC_THINKING_ID_PREFIX ?k),
                              part_sessionID =
                                Some (case info_sessionID (mkInfo ''m1'' ''assistant'' None) of
                                        None \<Rightarrow> [] | Some s \<Rightarrow> s),
                              part_messageID = info_id (mkInfo ''m1'' ''assistant'' None),
                              part_text = None,
                              part_thinking = Some (units ''note''),
                              part_synthetic = Some True \<rparr> # partsOf (toolTurn ''m1''))\<rparr>, None)"
    by blast
  have a': "fst (prependThinkingBlock ?k (toolTurn ''m1'') (units ''note'')) =
     (toolTurn ''m1'')\<lparr>parts := Some (\<lparr> part_type = units ''thinking'',
                              part_id = Some (units ''prt_0000000000_synthetic_thinking''),
                              part_sessionID = Some (units ''ses_1''),
                              part_messageID = Some (units ''m1''),
                              part_text = None,
                              part_thinking = Some (units ''note''),
                              part_synthetic = Some True \<rparr> # [mkPart ''tool_use'' None])\<rparr>"
    unfolding a by (simp add: exampleEnv_def mkInfo_def toolTurn_def mkMessage_def partsOf_def)
  from inst have b: "length (fst (messagesTransform ?k twoViolations)) = length twoViolations"
    by blast
  have b': "length twoViolations = 4" by code_simp
  from inst len th have c:
    "info (fst (messagesTransform ?k twoViolations) ! 3) = info (twoViolations ! 3) \<and>
     filter (\<lambda>p. \<not> thinkingLike ?k p) (partsOf (fst (messagesTransform ?k twoViolations) ! 3)) =
     filter (\<lambda>p. \<not> thinkingLike ?k p) (partsOf (twoViolations ! 3))"
    by blast
  from a' b b' c show ?thesis by simp
qed

lemma isExtendedThinkingModel_empty: "\<not> isExtendedThinkingModel k []"
  by (simp add: isExtendedThinkingModel_def)

text \<open>
  Claim C8. When the conversation has no user message, or the model identifier of its most
  recent user message (empty when that message has none) is not enforcing, the transform
  leaves the conversation exactly as it was; on a conversation whose messages all carry
  their \<open>info\<close> it returns so without an error.
\<close>

theorem messagesTransform_noop:
  assumes "latestUserMessage C = None \<or> \<not> isExtendedThinkingModel k (activeModel C)"
  shows "fst (messagesTransform k C) = C \<and> (wellFormed C \<longrightarrow> messagesTransform k C = (C, None))"
proof -
  have "activeModel C = []" if "latestUserMessage C = None"
    using that by (simp add: activeModel_def modelIDOf_def)
  with assms have ne: "\<not> isExtendedThinkingModel k (activeModel C)"
    using isExtendedThinkingModel_empty by auto
  with messagesTransform_state [of k C] have "fst (messagesTransform k C) = C" by blast
  moreover have "messagesTransform k C = (C, None)" if "wellFormed C"
    using that ne by (simp add: messagesTransform_wellFormed)
  ultimately show ?thesis by blast
qed

theorem messagesTransform_noop_witness:
  "messagesTransform exampleEnv otherModelExample = (otherModelExample, None) \<and>
   inViolation exampleEnv (otherModelExample ! 1) \<and>
   activeModel otherModelExample = (units ''gpt-4'') \<and>
   messagesTransform exampleEnv noUserExample = (noUserExample, None) \<and>
   inViolation exampleEnv (noUserExample ! 0)"
proof -
  let ?k = exampleEnv
  have m: "activeModel otherModelExample = (units ''gpt-4'')" by code_simp
  have h1: "latestUserMessage otherModelExample = None \<or>
      \<not> isExtendedThinkingModel exampleEnv (activeModel otherModelExample)"
    by code_simp
  have w1: "wellFormed otherModelExample" by code_simp
  have roles: "units ''assistant'' \<noteq> units ''user''" by code_simp
  have n: "latestUserMessage noUserExample = None"
    by (simp add: latestUserMessage_def noUserExample_def toolTurn_def mkMessage_def mkInfo_def
        hasRole_def roles)
  then have h2: "latestUserMessage noUserExample = None \<or>
      \<not> isExtendedThinkingModel exampleEnv (activeModel noUserExample)"
    by simp
  have w2: "wellFormed noUserExample" by code_simp
  have v1: "inViolation ?k (otherModelExample ! 1)" by code_simp
  have v2: "inViolation ?k (noUserExample ! 0)" by code_simp
  from messagesTransform_noop [OF h1] w1
  have a: "messagesTransform ?k otherModelExample = (otherModelExample, None)" by blast
  from messagesTransform_noop [OF h2] w2
  have b: "messagesTransform ?k noUserExample = (noUserExample, None)" by blast
  from a b m v1 v2 show ?thesis by blast
qed


lemma hasInfo_iff: "hasInfo m \<longleftrightarrow> info m \<noteq> None"
  by (simp add: hasInfo_def split: option.splits)





lemma inViolation_repaired_other:
  "info m' = info m \<Longrightarrow> parts m' = parts m \<Longrightarrow> inViolation k m' = inViolation k m"
  by (simp add: inViolation_def hasRole_def)






text \<open>
  Claim C10. For a message without \<open>parts\<close>, \<open>hasContentParts\<close> and
  \<open>startsWithThinkingBlock\<close> are both false, so the message is not in violation and the
  transform leaves it as it was; missing \<open>parts\<close> never make the transform raise (it
  returns normally whenever every message carries its \<open>info\<close>); and \<open>prependThinkingBlock\<close>
  on such a message starts from the empty part list and returns normally.
\<close>

theorem missing_parts_total:
  "hasContentParts k None = False \<and> startsWithThinkingBlock k None = False \<and>
   (\<forall>m. parts m = None \<longrightarrow> \<not> inViolation k m) \<and>
   (\<forall>i<length C. parts (C ! i) = None \<longrightarrow> fst (messagesTransform k C) ! i = C ! i) \<and>
   (wellFormed C \<longrightarrow> snd (messagesTransform k C) = None) \<and>
   (\<forall>m minfo c. parts m = None \<and> info m = Some minfo \<longrightarrow>
      prependThinkingBlock k m c = (m\<lparr>parts := Some [thinkingPart k minfo c]\<rparr>, None))"
proof -
  have unchanged: "fst (messagesTransform k C) ! i = C ! i"
    if "i < length C" and "parts (C ! i) = None" for i
    using messagesTransform_frame [OF that(1), of k] inViolation_parts_None [OF that(2), of k]
    by blast
  have ok: "snd (messagesTransform k C) = None" if "wellFormed C"
  proof -
    from that have "\<forall>l<length C. info (C ! l) \<noteq> None" by (simp add: wellFormed_nth)
    then have "snd (process_loop k C 0) = None" by (rule process_loop_wellFormed)
    with that show ?thesis by (simp add: messagesTransform_wellFormed)
  qed
  have prepend: "prependThinkingBlock k m c = (m\<lparr>parts := Some [thinkingPart k minfo c]\<rparr>, None)"
    if "parts m = None" and "info m = Some minfo" for m minfo c
    using that by (simp add: prependThinkingBlock_info repaired_def partsOf_def)
  from unchanged ok prepend show ?thesis
    by (simp add: hasContentParts_None startsWithThinkingBlock_None inViolation_parts_None)
qed

theorem missing_parts_total_witness:
  "parts (missingPartsExample ! 1) = None \<and>
   \<not> inViolation exampleEnv (missingPartsExample ! 1) \<and>
   fst (messagesTransform exampleEnv missingPartsExample) ! 1 = missingPartsExample ! 1 \<and>
   snd (messagesTransform exampleEnv missingPartsExample) = None \<and>
   map (\<lambda>m. length (partsOf m)) (fst (messagesTransform exampleEnv missingPartsExample)) =
     [1, 0, 2] \<and>
   prependThinkingBlock exampleEnv (missingPartsExample ! 1) (units ''note'') =
     ((missingPartsExample ! 1)
        \<lparr>parts := Some [thinkingPart exampleEnv (mkInfo ''m1'' ''assistant'' None) (units ''note'')]\<rparr>,
      None)"
proof -
  let ?k = exampleEnv
  let ?C = missingPartsExample
  have p: "parts (?C ! 1) = None" by (simp add: missingPartsExample_def)
  have i: "info (?C ! 1) = Some (mkInfo ''m1'' ''assistant'' None)"
    by (simp add: missingPartsExample_def)
  have len: "(1::nat) < length ?C" by code_simp
  have wf: "wellFormed ?C" by code_simp
  have shape: "map (\<lambda>m. length (partsOf m)) (fst (messagesTransform ?k ?C)) = [1, 0, 2]"
    by code_simp
  note inst = missing_parts_total [of ?k ?C]
  from inst p have a: "\<not> inViolation ?k (?C ! 1)" by blast
  from inst p len have b: "fst (messagesTransform ?k ?C) ! 1 = ?C ! 1" by blast
  from inst wf have c: "snd (messagesTransform ?k ?C) = None" by blast
  from inst p i have d: "prependThinkingBlock ?k (?C ! 1) (units ''note'') =
     ((?C ! 1)\<lparr>parts := Some [thinkingPart ?k (mkInfo ''m1'' ''assistant'' None) (units ''note'')]\<rparr>, None)"
    by blast
  from p a b c shape d show ?thesis by blast
qed

text \<open>
  Claim C6 reads the reused text off the conversation as it was given. The search runs on
  the array the loop has already repaired: in \<open>shadowedExample\<close> the third message has the
  thinking text \<open>reasoning B\<close> of its own, but by the time the fourth message is repaired
  the third one starts with a synthetic part carrying \<open>reasoning A\<close>, and that is the text
  the fourth message receives.
\<close>

theorem reuse_original_counterexample:
  "inViolation exampleEnv (shadowedExample ! 3) \<and>
   part_thinking (hd (partsOf (fst (messagesTransform exampleEnv shadowedExample) ! 3))) \<noteq>
     Some (reuseContent exampleEnv shadowedExample 3) \<and>
   reuseContent exampleEnv shadowedExample 3 = (units ''reasoning B'') \<and>
   map part_thinking (partsOf (fst (messagesTransform exampleEnv shadowedExample) ! 3)) =
     [Some (units ''reasoning A''), None]"
  by code_simp

text \<open>
  Claim C6, amended. Every message the transform changes was in violation and is left
  with the synthetic part in front whose content is read off the conversation as the
  transform leaves it: the thinking text of the first thinking-like part that is not
  blank, in the most recent earlier assistant message that has one, earlier repairs of
  the same pass included, and the default placeholder when there is none.
\<close>

theorem messagesTransform_content:
  "\<forall>i<length C. fst (messagesTransform k C) ! i \<noteq> C ! i \<longrightarrow>
     (\<exists>minfo. info (C ! i) = Some minfo \<and> inViolation k (C ! i) \<and>
        fst (messagesTransform k C) ! i =
          repaired k (C ! i) minfo (reuseContent k (fst (messagesTransform k C)) i))"
proof (intro allI impI)
  fix i assume i: "i < length C" and ne: "fst (messagesTransform k C) ! i \<noteq> C ! i"
  then have "fst (messagesTransform k C) \<noteq> C" by auto
  then have eq: "messagesTransform k C = process_loop k C 0"
    using messagesTransform_state [of k C] by blast
  with ne have "fst (process_loop k C 0) ! i \<noteq> C ! i" by simp
  with i have "\<exists>minfo. info (C ! i) = Some minfo \<and> inViolation k (C ! i) \<and>
     fst (process_loop k C 0) ! i =
       repaired k (C ! i) minfo (reuseContent k (fst (process_loop k C 0)) i)"
    by (intro process_loop_content) simp_all
  with eq show "\<exists>minfo. info (C ! i) = Some minfo \<and> inViolation k (C ! i) \<and>
        fst (messagesTransform k C) ! i =
          repaired k (C ! i) minfo (reuseContent k (fst (messagesTransform k C)) i)"
    by simp
qed

theorem messagesTransform_content_witness:
  "(\<exists>minfo. info (shadowedExample ! 3) = Some minfo \<and>
      inViolation exampleEnv (shadowedExample ! 3) \<and>
      fst (messagesTransform exampleEnv shadowedExample) ! 3 =
        repaired exampleEnv (shadowedExample ! 3) minfo
          (reuseContent exampleEnv (fst (messagesTransform exampleEnv shadowedExample)) 3)) \<and>
   reuseContent exampleEnv (fst (messagesTransform exampleEnv shadowedExample)) 3 =
     (units ''reasoning A'') \<and>
   reuseContent exampleEnv (fst (messagesTransform exampleEnv twoViolations)) 1 =
     (units ''[Continuing from previous reasoning]'') \<and>
   map part_thinking (partsOf (fst (messagesTransform exampleEnv blankExample) ! 2)) =
     [Some (units ''[Continuing from previous reasoning]''), None]"
proof -
  let ?k = exampleEnv
  let ?r = "fst (messagesTransform ?k shadowedExample)"
  have len: "(3::nat) < length shadowedExample" by code_simp
  have "length (partsOf (?r ! 3)) = 2" by code_simp
  moreover have "length (partsOf (shadowedExample ! 3)) = 1" by code_simp
  ultimately have ne: "?r ! 3 \<noteq> shadowedExample ! 3" by auto
  from messagesTransform_content [of shadowedExample ?k] len ne
  have a: "\<exists>minfo. info (shadowedExample ! 3) = Some minfo \<and>
      inViolation ?k (shadowedExample ! 3) \<and>
      ?r ! 3 = repaired ?k (shadowedExample ! 3) minfo (reuseContent ?k ?r 3)"
    by blast
  have b: "reuseContent ?k ?r 3 = (units ''reasoning A'')" by code_simp
  have c: "reuseContent ?k (fst (messagesTransform ?k twoViolations)) 1 =
     (units ''[Continuing from previous reasoning]'')" by code_simp
  have d: "map part_thinking (partsOf (fst (messagesTransform ?k blankExample) ! 2)) =
     [Some (units ''[Continuing from previous reasoning]''), None]" by code_simp
  from a b c d show ?thesis by blast
qed

text \<open>
  Claim C3. \<open>hasContentParts\<close> asks for a part whose type is listed in
  \<open>CONTENT_PART_TYPES\<close>, so a part of a type listed nowhere does not count as content: a
  message whose only part has type \<open>file\<close> has no content for the code, although the part
  is not thinking-like, and an assistant message made of it is not repaired.
\<close>

theorem hasContentParts_unknown_type:
  "hasContentParts k (Some [mkPart t None]) = (units t \<in> set (CONTENT_PART_TYPES k)) \<and>
   hasContentParts exampleEnv (Some [mkPart ''file'' None]) = False \<and>
   thinkingLike exampleEnv (mkPart ''file'' None) = False \<and>
   inViolation exampleEnv (mkMessage ''m1'' ''assistant'' None [mkPart ''file'' None]) = False"
proof -
  have "hasContentParts k (Some [mkPart t None]) = (units t \<in> set (CONTENT_PART_TYPES k))"
    by (simp add: hasContentParts_Some mkPart_def)
  moreover have "hasContentParts exampleEnv (Some [mkPart ''file'' None]) = False \<and>
   thinkingLike exampleEnv (mkPart ''file'' None) = False \<and>
   inViolation exampleEnv (mkMessage ''m1'' ''assistant'' None [mkPart ''file'' None]) = False"
    by code_simp
  ultimately show ?thesis by (rule conjI)
qed

end
